theory Spec2Isabelle
  imports Main "HOL-Library.Multiset"
begin

section \<open>Strings: the functions of Go's \<open>strings\<close> package the installer calls\<close>

text \<open>
  A Go string is a sequence of bytes, here a \<open>string\<close> (a list of \<open>char\<close>); text is
  UTF-8, and a byte sequence that is not valid UTF-8 is still a string.
\<close>

definition newline :: char where
  "newline = CHR 0x0A"

text \<open>\<open>strings.Split(s, "\n")\<close>: the fields between the separators; \<open>n\<close> separators
  give \<open>n + 1\<close> fields, so the empty string gives one empty field.\<close>

fun Split :: "string \<Rightarrow> string list" where
  "Split [] = [[]]"
| "Split (c # cs) =
     (if c = newline then [] # Split cs
      else (case Split cs of [] \<Rightarrow> [[c]] | l # ls \<Rightarrow> (c # l) # ls))"

text \<open>\<open>strings.Join(lines, "\n")\<close>, the inverse of \<open>Split\<close>.\<close>

fun Join :: "string list \<Rightarrow> string" where
  "Join [] = []"
| "Join [l] = l"
| "Join (l # ls) = l @ newline # Join ls"

text \<open>\<open>strings.HasPrefix\<close> and \<open>strings.HasSuffix\<close>.\<close>

definition HasPrefix :: "string \<Rightarrow> string \<Rightarrow> bool" where
  "HasPrefix s p = (length p \<le> length s \<and> take (length p) s = p)"

definition HasSuffix :: "string \<Rightarrow> string \<Rightarrow> bool" where
  "HasSuffix s p = (length p \<le> length s \<and> drop (length s - length p) s = p)"

text \<open>\<open>strings.Contains(s, substr)\<close>: \<open>substr\<close> occurs at some position of \<open>s\<close>.\<close>

fun Contains :: "string \<Rightarrow> string \<Rightarrow> bool" where
  "Contains [] substr = (substr = [])"
| "Contains (c # cs) substr = (HasPrefix (c # cs) substr \<or> Contains cs substr)"

text \<open>
  White space, as \<open>unicode.IsSpace\<close> has it: the code points U+0009 to U+000D, U+0020,
  U+0085, U+00A0, U+1680, U+2000 to U+200A, U+2028, U+2029, U+202F, U+205F and U+3000,
  each here in its UTF-8 encoding.  No encoding is the beginning of another, each
  starts with a byte that starts a code point and goes on with continuation bytes only,
  so a string begins (ends) with one of them exactly when the first (last) code point
  the library decodes is that white space; a byte that is not part of valid UTF-8
  decodes to U+FFFD, which is not white space.
\<close>

definition whiteSpace :: "string list" where
  "whiteSpace =
     [[CHR 0x09], [CHR 0x0A], [CHR 0x0B], [CHR 0x0C], [CHR 0x0D], [CHR 0x20],
      [CHR 0xC2, CHR 0x85], [CHR 0xC2, CHR 0xA0],
      [CHR 0xE1, CHR 0x9A, CHR 0x80],
      [CHR 0xE2, CHR 0x80, CHR 0x80], [CHR 0xE2, CHR 0x80, CHR 0x81],
      [CHR 0xE2, CHR 0x80, CHR 0x82], [CHR 0xE2, CHR 0x80, CHR 0x83],
      [CHR 0xE2, CHR 0x80, CHR 0x84], [CHR 0xE2, CHR 0x80, CHR 0x85],
      [CHR 0xE2, CHR 0x80, CHR 0x86], [CHR 0xE2, CHR 0x80, CHR 0x87],
      [CHR 0xE2, CHR 0x80, CHR 0x88], [CHR 0xE2, CHR 0x80, CHR 0x89],
      [CHR 0xE2, CHR 0x80, CHR 0x8A],
      [CHR 0xE2, CHR 0x80, CHR 0xA8], [CHR 0xE2, CHR 0x80, CHR 0xA9],
      [CHR 0xE2, CHR 0x80, CHR 0xAF],
      [CHR 0xE2, CHR 0x81, CHR 0x9F],
      [CHR 0xE3, CHR 0x80, CHR 0x80]]"

text \<open>The number of bytes of the white space a string begins with, or ends with;
  0 when there is none.\<close>

definition spaceAtStart :: "string \<Rightarrow> nat" where
  "spaceAtStart s = (case filter (HasPrefix s) whiteSpace of [] \<Rightarrow> 0 | w # ws \<Rightarrow> length w)"

definition spaceAtEnd :: "string \<Rightarrow> nat" where
  "spaceAtEnd s = (case filter (HasSuffix s) whiteSpace of [] \<Rightarrow> 0 | w # ws \<Rightarrow> length w)"

lemma spaceAtStart_le: "spaceAtStart s \<le> length s"
proof (cases "filter (HasPrefix s) whiteSpace")
  case Nil
  then show ?thesis by (simp add: spaceAtStart_def)
next
  case (Cons w ws)
  then have "w \<in> set (filter (HasPrefix s) whiteSpace)" by simp
  then have "HasPrefix s w" by simp
  with Cons show ?thesis by (simp add: spaceAtStart_def HasPrefix_def)
qed

lemma spaceAtEnd_le: "spaceAtEnd s \<le> length s"
proof (cases "filter (HasSuffix s) whiteSpace")
  case Nil
  then show ?thesis by (simp add: spaceAtEnd_def)
next
  case (Cons w ws)
  then have "w \<in> set (filter (HasSuffix s) whiteSpace)" by simp
  then have "HasSuffix s w" by simp
  with Cons show ?thesis by (simp add: spaceAtEnd_def HasSuffix_def)
qed

text \<open>\<open>strings.TrimLeftFunc(s, unicode.IsSpace)\<close> and
  \<open>strings.TrimRightFunc(s, unicode.IsSpace)\<close>: white space is taken off one end
  until none is left there.\<close>

function TrimLeftSpace :: "string \<Rightarrow> string" where
  "TrimLeftSpace s = (if spaceAtStart s = 0 then s else TrimLeftSpace (drop (spaceAtStart s) s))"
  by pat_completeness auto
termination
proof (relation "measure length")
  show "wf (measure length)" by simp
next
  fix s :: string
  assume "spaceAtStart s \<noteq> 0"
  with spaceAtStart_le [of s] show "(drop (spaceAtStart s) s, s) \<in> measure length"
    by simp
qed

function TrimRightSpace :: "string \<Rightarrow> string" where
  "TrimRightSpace s =
     (if spaceAtEnd s = 0 then s else TrimRightSpace (take (length s - spaceAtEnd s) s))"
  by pat_completeness auto
termination
proof (relation "measure length")
  show "wf (measure length)" by simp
next
  fix s :: string
  assume "spaceAtEnd s \<noteq> 0"
  with spaceAtEnd_le [of s] show "(take (length s - spaceAtEnd s) s, s) \<in> measure length"
    by simp
qed

declare TrimLeftSpace.simps [simp del] TrimRightSpace.simps [simp del]

text \<open>\<open>strings.TrimSpace\<close>: all leading and trailing white space removed.  (The library
  first skips ASCII white space at either end and hands the rest to the two functions
  above; the result is the same.)\<close>

definition TrimSpace :: "string \<Rightarrow> string" where
  "TrimSpace s = TrimRightSpace (TrimLeftSpace s)"

definition isASCII :: "char \<Rightarrow> bool" where
  "isASCII c = ((of_char c :: nat) < 128)"

definition toLowerChar :: "char \<Rightarrow> char" where
  "toLowerChar c =
     (let n = (of_char c :: nat) in if 65 \<le> n \<and> n \<le> 90 then char_of (n + 32) else c)"

text \<open>
  \<open>strings.ToLower\<close>.  A string of ASCII bytes is lower-cased byte by byte, \<open>A\<close> to \<open>Z\<close>
  becoming \<open>a\<close> to \<open>z\<close>.  Any other string goes through
  \<open>strings.Map(unicode.ToLower, s)\<close>, which reads the Unicode case tables; they are not
  part of this repository, so that function is the parameter \<open>unicodeLower\<close>.
\<close>

definition ToLower :: "(string \<Rightarrow> string) \<Rightarrow> string \<Rightarrow> string" where
  "ToLower unicodeLower s = (if list_all isASCII s then map toLowerChar s else unicodeLower s)"

text \<open>An occurrence of \<open>warn\<close> in any mix of upper and lower case, told letter by
  letter.\<close>

fun warnAt :: "string \<Rightarrow> bool" where
  "warnAt (a # b # c # d # rest) =
     ((a = CHR ''w'' \<or> a = CHR ''W'') \<and> (b = CHR ''a'' \<or> b = CHR ''A'')
      \<and> (c = CHR ''r'' \<or> c = CHR ''R'') \<and> (d = CHR ''n'' \<or> d = CHR ''N''))"
| "warnAt s = False"

fun containsWarnAnyCase :: "string \<Rightarrow> bool" where
  "containsWarnAnyCase [] = False"
| "containsWarnAnyCase (c # cs) = (warnAt (c # cs) \<or> containsWarnAnyCase cs)"

section \<open>The command line of one install\<close>

text \<open>
  \<open>installPackageParallel\<close> (the task of a batch) builds its command from the package
  name and \<open>useBun\<close> alone; it has no parameter for the dev flag:
  \<^verbatim>\<open>
  if useBun && packageName == "nquickdev" { cmd = exec.Command("npm", "install", packageName)
  } else if useBun                         { cmd = exec.Command("bun", "add", packageName)
  } else                                   { cmd = exec.Command("npm", "install", packageName) }
  \<close>
\<close>

definition installPackageParallel_cmd :: "string \<Rightarrow> bool \<Rightarrow> string list" where
  "installPackageParallel_cmd packageName useBun =
     (if useBun \<and> packageName = ''nquickdev'' then [''npm'', ''install'', packageName]
      else if useBun then [''bun'', ''add'', packageName]
      else [''npm'', ''install'', packageName])"

text \<open>\<open>installSingleDependency\<close> (the one-package entry point) also reads \<open>isDev\<close>.\<close>

definition installSingleDependency_cmd :: "string \<Rightarrow> bool \<Rightarrow> bool \<Rightarrow> string list" where
  "installSingleDependency_cmd dep isDev useBun =
     (if useBun \<and> dep = ''nquickdev'' then
        (if isDev then [''npm'', ''install'', ''--save-dev'', dep] else [''npm'', ''install'', dep])
      else if useBun then
        (if isDev then [''bun'', ''add'', ''-d'', dep] else [''bun'', ''add'', dep])
      else
        (if isDev then [''npm'', ''install'', ''--save-dev'', dep] else [''npm'', ''install'', dep]))"

section \<open>The diagnostic of a failed install\<close>

text \<open>The test of the first loop of \<open>installPackageParallel\<close> on a trimmed line.\<close>

definition isErrorLine :: "(string \<Rightarrow> string) \<Rightarrow> string \<Rightarrow> bool" where
  "isErrorLine unicodeLower line =
     ((Contains line ''ERR!'' \<or> Contains line ''error'' \<or> Contains line ''404''
        \<or> Contains line ''ENOENT'' \<or> Contains line ''ENOTEMPTY'' \<or> Contains line ''code'')
      \<and> \<not> Contains (ToLower unicodeLower line) ''warn'')"

text \<open>The first loop: the error lines, appended to \<open>errorLines\<close> in the order read.\<close>

fun collectErrorLines :: "(string \<Rightarrow> string) \<Rightarrow> string list \<Rightarrow> string list \<Rightarrow> string list" where
  "collectErrorLines unicodeLower [] errorLines = errorLines"
| "collectErrorLines unicodeLower (l # ls) errorLines =
     (let line = TrimSpace l in
      if line \<noteq> [] then
        (if isErrorLine unicodeLower line
         then collectErrorLines unicodeLower ls (errorLines @ [line])
         else collectErrorLines unicodeLower ls errorLines)
      else collectErrorLines unicodeLower ls errorLines)"

text \<open>The fallback loop: non-empty trimmed lines while fewer than three are kept.\<close>

fun collectFirstLines :: "string list \<Rightarrow> string list \<Rightarrow> string list" where
  "collectFirstLines [] errorLines = errorLines"
| "collectFirstLines (l # ls) errorLines =
     (let line = TrimSpace l in
      if line \<noteq> [] \<and> length errorLines < 3 then collectFirstLines ls (errorLines @ [line])
      else collectFirstLines ls errorLines)"

text \<open>The lines \<open>installPackageParallel\<close> prints after a failure, from the captured
  standard error: nothing when it is empty.\<close>

definition errorDiagnostic :: "(string \<Rightarrow> string) \<Rightarrow> string \<Rightarrow> string list" where
  "errorDiagnostic unicodeLower errOutput =
     (if errOutput \<noteq> [] then
        (let lines = Split errOutput;
             errorLines = collectErrorLines unicodeLower lines [];
             errorLines' =
               (if length errorLines = 0 \<and> errOutput \<noteq> []
                then collectFirstLines (Split errOutput) errorLines else errorLines);
             maxLines = 5
         in if length errorLines' > maxLines then take maxLines errorLines' else errorLines')
      else [])"

text \<open>What a task prints of its subprocess: the diagnostic when \<open>cmd.Run()\<close> returned
  an error (\<open>err != nil\<close>), nothing otherwise.\<close>

definition installPackageParallel_diagnostic ::
  "(string \<Rightarrow> string) \<Rightarrow> bool \<Rightarrow> string \<Rightarrow> string list"
where
  "installPackageParallel_diagnostic unicodeLower err errOutput =
     (if err then errorDiagnostic unicodeLower errOutput else [])"

text \<open>The non-empty trimmed lines of a text, in order.\<close>

definition trimmedLines :: "string \<Rightarrow> string list" where
  "trimmedLines errOutput = filter (\<lambda>line. line \<noteq> []) (map TrimSpace (Split errOutput))"

section \<open>Choosing the backend, and the entry points\<close>

text \<open>
  What the functions ask of their environment: whether \<open>exec.LookPath\<close> finds an
  executable, whether a command run to its end returns no error, what
  \<open>os.Stat("package.json")\<close> answers in the current directory, and the text of the
  project's \<open>.config\<close> file (\<open>None\<close> when the file cannot be read).
\<close>

datatype stat_result = StatOk | StatNotExist | StatOtherError

record env =
  lookPath :: "string \<Rightarrow> bool"
  runs :: "string list \<Rightarrow> bool"
  statPackageJson :: stat_result
  configFile :: "string option"

text \<open>Where a command's standard output and standard error go.\<close>

datatype sink = Discard | Buffer

text \<open>The calls a function makes on its environment, in order.\<close>

datatype action =
    Stat string
  | ReadConfig
  | RemoveConfig
  | LookPath string
  | Exec "string list" sink sink

text \<open>The one command \<open>installSingleDependency\<close> runs.\<close>

definition installSingleDependency :: "string \<Rightarrow> bool \<Rightarrow> bool \<Rightarrow> action list" where
  "installSingleDependency dep isDev useBun =
     [Exec (installSingleDependency_cmd dep isDev useBun)
        (if useBun then Buffer else Discard) Buffer]"

text \<open>\<open>installBun\<close>: \<open>npm install -g bun\<close>, both streams discarded; true when the
  command returned no error.\<close>

definition installBun_cmd :: "string list" where
  "installBun_cmd = [''npm'', ''install'', ''-g'', ''bun'']"

definition installBun :: "env \<Rightarrow> action list \<times> bool" where
  "installBun e = ([Exec installBun_cmd Discard Discard], runs e installBun_cmd)"

text \<open>
  The block \<open>Determine installation mode\<close> of \<open>installDependencies\<close>: the calls made
  and \<open>Some useBun\<close>, or \<open>None\<close> where the function returns because npm is missing.
\<close>

definition determineMode_init :: "env \<Rightarrow> string \<Rightarrow> action list \<times> bool option" where
  "determineMode_init e mode =
     (if mode = ''b'' then
        (if lookPath e ''bun'' then ([LookPath ''bun''], Some True)
         else if \<not> lookPath e ''npm'' then ([LookPath ''bun'', LookPath ''npm''], None)
         else ([LookPath ''bun'', LookPath ''npm''], Some False))
      else if mode = ''n'' then
        (if \<not> lookPath e ''npm'' then ([LookPath ''npm''], None)
         else ([LookPath ''npm''], Some False))
      else
        (if lookPath e ''bun'' then ([LookPath ''bun''], Some True)
         else
           (case installBun e of
              (acts, True) \<Rightarrow> (LookPath ''bun'' # acts, Some True)
            | (acts, False) \<Rightarrow>
                (if \<not> lookPath e ''npm'' then (LookPath ''bun'' # acts @ [LookPath ''npm''], None)
                 else (LookPath ''bun'' # acts @ [LookPath ''npm''], Some False)))))"

text \<open>The same block of \<open>InstallPackages\<close>, which never calls \<open>installBun\<close>.\<close>

definition determineMode_install :: "env \<Rightarrow> string \<Rightarrow> action list \<times> bool option" where
  "determineMode_install e mode =
     (if mode = ''b'' then
        (if lookPath e ''bun'' then ([LookPath ''bun''], Some True)
         else if \<not> lookPath e ''npm'' then ([LookPath ''bun'', LookPath ''npm''], None)
         else ([LookPath ''bun'', LookPath ''npm''], Some False))
      else if mode = ''n'' then
        (if \<not> lookPath e ''npm'' then ([LookPath ''npm''], None)
         else ([LookPath ''npm''], Some False))
      else
        (if lookPath e ''bun'' then ([LookPath ''bun''], Some True)
         else if \<not> lookPath e ''npm'' then ([LookPath ''bun'', LookPath ''npm''], None)
         else ([LookPath ''bun'', LookPath ''npm''], Some False)))"

text \<open>
  The loop of \<open>installDependencies\<close> over the lines of \<open>.config\<close>: a line starting
  with \<open>Deps:\<close> or \<open>DevDeps:\<close> opens a section, a line \<open>- name\<close> adds \<open>name\<close> to the
  open section.
\<close>

fun parseConfig ::
  "string list \<Rightarrow> bool \<Rightarrow> bool \<Rightarrow> string list \<Rightarrow> string list \<Rightarrow> string list \<times> string list"
where
  "parseConfig [] inDeps inDevDeps deps devDeps = (deps, devDeps)"
| "parseConfig (l # ls) inDeps inDevDeps deps devDeps =
     (let line = TrimSpace l in
      if HasPrefix line ''Deps:'' then parseConfig ls True False deps devDeps
      else if HasPrefix line ''DevDeps:'' then parseConfig ls False True deps devDeps
      else if HasPrefix line ''- '' then
        (let dep = drop 2 line in
         if inDeps then parseConfig ls inDeps inDevDeps (deps @ [dep]) devDeps
         else if inDevDeps then parseConfig ls inDeps inDevDeps deps (devDeps @ [dep])
         else parseConfig ls inDeps inDevDeps deps devDeps)
      else parseConfig ls inDeps inDevDeps deps devDeps)"

text \<open>
  One batch: the two dependency lists, the backend and the strict flag.  The tasks of
  the regular dependencies come first, then those of the dev dependencies.
\<close>

record batch =
  deps :: "string list"
  devDeps :: "string list"
  useBun :: bool
  strict :: bool

text \<open>How a function ends: it returns, it ends the process with an exit code, or it
  goes on to run a batch.\<close>

datatype ending = Returns | Exits nat | RunsBatch batch

text \<open>\<open>installDependencies\<close> up to the launch of the tasks: the \<open>.config\<close> file is read,
  parsed and removed, then the backend is chosen.\<close>

definition installDependencies :: "env \<Rightarrow> string \<Rightarrow> bool \<Rightarrow> action list \<times> ending" where
  "installDependencies e mode strictFlag =
     (case configFile e of
        None \<Rightarrow> ([ReadConfig], Returns)
      | Some data \<Rightarrow>
          (case parseConfig (Split data) False False [] [] of
             (ds, dds) \<Rightarrow>
               (case determineMode_init e mode of
                  (acts, None) \<Rightarrow> (ReadConfig # RemoveConfig # acts, Returns)
                | (acts, Some ub) \<Rightarrow>
                    (ReadConfig # RemoveConfig # acts,
                     RunsBatch \<lparr>deps = ds, devDeps = dds, useBun = ub, strict = strictFlag\<rparr>))))"

text \<open>\<open>InstallPackages\<close> up to the launch of the tasks: it has no dev dependencies and
  no strict mode.\<close>

definition InstallPackages :: "env \<Rightarrow> string list \<Rightarrow> string \<Rightarrow> action list \<times> ending" where
  "InstallPackages e packages mode =
     (if statPackageJson e = StatNotExist then ([Stat ''package.json''], Returns)
      else
        (case determineMode_install e mode of
           (acts, None) \<Rightarrow> (Stat ''package.json'' # acts, Returns)
         | (acts, Some ub) \<Rightarrow>
             (Stat ''package.json'' # acts,
              RunsBatch \<lparr>deps = packages, devDeps = [], useBun = ub, strict = False\<rparr>)))"

text \<open>\<open>InstallPackage\<close>: one package, installed by \<open>installSingleDependency\<close> in the
  calling thread; with bun both streams are buffered, with npm the output is discarded.\<close>

definition InstallPackage :: "env \<Rightarrow> string \<Rightarrow> action list \<times> ending" where
  "InstallPackage e packageName =
     (if statPackageJson e = StatNotExist then ([Stat ''package.json''], Returns)
      else if lookPath e ''bun'' then
        (Stat ''package.json'' # LookPath ''bun'' # installSingleDependency packageName False True,
         Returns)
      else if \<not> lookPath e ''npm'' then
        ([Stat ''package.json'', LookPath ''bun'', LookPath ''npm''], Returns)
      else
        ([Stat ''package.json'', LookPath ''bun'', LookPath ''npm'']
           @ installSingleDependency packageName False False,
         Returns))"

section \<open>The batch: tasks, permits, the npm lock and the collection loop\<close>

text \<open>
  Both \<open>installDependencies\<close> and \<open>InstallPackages\<close> start one goroutine per package and
  then read the results:
  \<^verbatim>\<open>
  results := make(chan installResult, totalDeps)
  semaphore := make(chan struct{}, maxConcurrent)
  go func(index int, packageName string) {
      semaphore <- struct{}{}
      defer func() { <-semaphore }()
      success := c.installPackageParallel(projectName, packageName, useBun, ...)
      results <- installResult{packageName, success, isDev, index}
  }(i, dep)
  \<close>
  The goroutines interleave, so the batch is a transition system: a state holds the
  control point of every goroutine, the two channels, the lock and the variables of the
  collection loop, and an event is one step of one goroutine.
\<close>

record installResult =
  packageName :: string
  success :: bool
  isDev :: bool
  index :: nat

definition totalDeps :: "batch \<Rightarrow> nat" where
  "totalDeps b = length (deps b) + length (devDeps b)"

definition maxConcurrent :: "batch \<Rightarrow> nat" where
  "maxConcurrent b = (if totalDeps b < 4 then totalDeps b else 4)"

text \<open>The name and the dev flag of the \<open>i\<close>-th goroutine's package.\<close>

definition taskName :: "batch \<Rightarrow> nat \<Rightarrow> string" where
  "taskName b i = (deps b @ devDeps b) ! i"

definition taskIsDev :: "batch \<Rightarrow> nat \<Rightarrow> bool" where
  "taskIsDev b i = (\<not> i < length (deps b))"

definition taskIndex :: "batch \<Rightarrow> nat \<Rightarrow> nat" where
  "taskIndex b i = (if i < length (deps b) then i else i - length (deps b))"

text \<open>The command the \<open>i\<close>-th goroutine runs.\<close>

definition taskCmd :: "batch \<Rightarrow> nat \<Rightarrow> string list" where
  "taskCmd b i = installPackageParallel_cmd (taskName b i) (useBun b)"

text \<open>The result the \<open>i\<close>-th goroutine sends when its install returned \<open>ok\<close>.\<close>

definition taskResult :: "batch \<Rightarrow> nat \<Rightarrow> bool \<Rightarrow> installResult" where
  "taskResult b i ok =
     \<lparr>packageName = taskName b i, success = ok, isDev = taskIsDev b i, index = taskIndex b i\<rparr>"

text \<open>
  The control points of a goroutine:
  \<^item> \<open>Start\<close>: launched, before \<open>semaphore <- struct{}{}\<close>;
  \<^item> \<open>Acquired\<close>: it holds a permit and is in \<open>installPackageParallel\<close>, before
    \<open>if !useBun { npmMutex.Lock() }\<close>;
  \<^item> \<open>Running\<close>: in \<open>cmd.Run()\<close>, the subprocess is in flight;
  \<^item> \<open>Ran ok\<close>: \<open>cmd.Run()\<close> has returned (\<open>ok\<close> is \<open>err == nil\<close>), before the
    deferred \<open>npmMutex.Unlock()\<close>;
  \<^item> \<open>Returned ok\<close>: \<open>installPackageParallel\<close> has returned, before \<open>results <- ...\<close>;
  \<^item> \<open>Sent ok\<close>: the result is sent, before the deferred \<open><-semaphore\<close>;
  \<^item> \<open>Done ok\<close>: the goroutine has ended.
  \<open>Sent\<close> and \<open>Done\<close> keep the outcome, so that a state records what each task did.
\<close>

datatype pc = Start | Acquired | Running | Ran bool | Returned bool | Sent bool | Done bool

text \<open>The calling goroutine: in the collection loop, past it (at the final summary),
  or gone with the whole process after \<open>os.Exit\<close>.\<close>

datatype main_pc = Collecting | Summary | Exited nat

text \<open>
  \<open>semaphore\<close> is the number of elements in the channel of that name, \<open>results\<close> the
  content of the result channel, oldest first.  \<open>printed\<close> holds the lines the
  collection loop prints (without colours and symbols).  \<open>observed\<close> is a history
  variable: the results received so far, in the order received.
\<close>

record state =
  gor :: "pc list"
  semaphore :: nat
  npmMutex :: bool
  results :: "installResult list"
  completed :: nat
  failedDeps :: "string list"
  mainpc :: main_pc
  printed :: "string list"
  observed :: "installResult list"

definition init :: "batch \<Rightarrow> state" where
  "init b =
     \<lparr>gor = replicate (totalDeps b) Start, semaphore = 0, npmMutex = False, results = [],
      completed = 0, failedDeps = [], mainpc = Collecting, printed = [], observed = []\<rparr>"

text \<open>The entry of \<open>failedDeps\<close> for a failed result.\<close>

definition failedLabel :: "installResult \<Rightarrow> string" where
  "failedLabel r = packageName r @ (if isDev r then '' (dev)'' else [])"

datatype event =
    Acquire nat
  | Launch nat
  | Exit nat bool
  | Return nat
  | Send nat
  | Release nat
  | Receive
  | Finish

definition at :: "state \<Rightarrow> nat \<Rightarrow> pc \<Rightarrow> bool" where
  "at s i p = (i < length (gor s) \<and> gor s ! i = p)"

text \<open>
  One step.  A send on a full channel, a receive on an empty one and \<open>Lock\<close> on a held
  lock block: the event is not enabled (\<open>None\<close>).  \<open>Receive\<close> is one turn of the
  collection loop, \<open>Finish\<close> its exit when \<open>completed < totalDeps\<close> fails.
\<close>

fun step :: "batch \<Rightarrow> state \<Rightarrow> event \<Rightarrow> state option" where
  "step b s (Acquire i) =
     (if at s i Start \<and> semaphore s < maxConcurrent b
      then Some (s\<lparr>gor := (gor s)[i := Acquired], semaphore := semaphore s + 1\<rparr>)
      else None)"
| "step b s (Launch i) =
     (if at s i Acquired then
        (if \<not> useBun b then
           (if npmMutex s then None
            else Some (s\<lparr>gor := (gor s)[i := Running], npmMutex := True\<rparr>))
         else Some (s\<lparr>gor := (gor s)[i := Running]\<rparr>))
      else None)"
| "step b s (Exit i ok) =
     (if at s i Running then Some (s\<lparr>gor := (gor s)[i := Ran ok]\<rparr>) else None)"
| "step b s (Return i) =
     (if at s i (Ran True) \<or> at s i (Ran False) then
        (let ok = at s i (Ran True) in
         if \<not> useBun b then Some (s\<lparr>gor := (gor s)[i := Returned ok], npmMutex := False\<rparr>)
         else Some (s\<lparr>gor := (gor s)[i := Returned ok]\<rparr>))
      else None)"
| "step b s (Send i) =
     (if (at s i (Returned True) \<or> at s i (Returned False)) \<and> length (results s) < totalDeps b then
        (let ok = at s i (Returned True) in
         Some (s\<lparr>gor := (gor s)[i := Sent ok], results := results s @ [taskResult b i ok]\<rparr>))
      else None)"
| "step b s (Release i) =
     (if (at s i (Sent True) \<or> at s i (Sent False)) \<and> 0 < semaphore s then
        Some (s\<lparr>gor := (gor s)[i := Done (at s i (Sent True))], semaphore := semaphore s - 1\<rparr>)
      else None)"
| "step b s Receive =
     (if mainpc s = Collecting \<and> completed s < totalDeps b then
        (case results s of
           [] \<Rightarrow> None
         | result # rest \<Rightarrow>
             (if \<not> success result then
                (if strict b then
                   Some (s\<lparr>results := rest, observed := observed s @ [result],
                           failedDeps := failedDeps s @ [failedLabel result],
                           printed := printed s @ [''Installation failed in strict mode'',
                                                   ''Failed package: '' @ failedLabel result],
                           mainpc := Exited 1\<rparr>)
                 else
                   Some (s\<lparr>results := rest, observed := observed s @ [result],
                           failedDeps := failedDeps s @ [failedLabel result],
                           completed := completed s + 1\<rparr>))
              else
                Some (s\<lparr>results := rest, observed := observed s @ [result],
                        completed := completed s + 1\<rparr>)))
      else None)"
| "step b s Finish =
     (if mainpc s = Collecting \<and> \<not> completed s < totalDeps b
      then Some (s\<lparr>mainpc := Summary\<rparr>) else None)"

text \<open>After \<open>os.Exit\<close> nothing runs any more.\<close>

definition exited :: "state \<Rightarrow> bool" where
  "exited s = (case mainpc s of Exited c \<Rightarrow> True | _ \<Rightarrow> False)"

definition next_state :: "batch \<Rightarrow> state \<Rightarrow> event \<Rightarrow> state option" where
  "next_state b s e = (if exited s then None else step b s e)"

text \<open>A run: the events of a schedule, one after the other; \<open>None\<close> when one of them is
  not enabled.\<close>

fun run :: "batch \<Rightarrow> state \<Rightarrow> event list \<Rightarrow> state option" where
  "run b s [] = Some s"
| "run b s (e # es) = (case next_state b s e of None \<Rightarrow> None | Some s' \<Rightarrow> run b s' es)"

text \<open>What the final summary prints: the failures with their count and the total, or
  that all \<open>totalDeps\<close> of \<open>totalDeps\<close> packages were installed.\<close>

datatype summary = Warnings nat nat "string list" | AllInstalled nat nat

definition finalSummary :: "batch \<Rightarrow> state \<Rightarrow> summary" where
  "finalSummary b s =
     (if length (failedDeps s) > 0
      then Warnings (length (failedDeps s)) (totalDeps b) (failedDeps s)
      else AllInstalled (totalDeps b) (totalDeps b))"

text \<open>A goroutine holds a permit from its send on \<open>semaphore\<close> to its receive from it.\<close>

fun holdsPermit :: "pc \<Rightarrow> bool" where
  "holdsPermit Start = False"
| "holdsPermit (Done ok) = False"
| "holdsPermit p = True"

text \<open>The subprocess of a goroutine is between its start and the unlock.\<close>

fun inSubprocess :: "pc \<Rightarrow> bool" where
  "inSubprocess Running = True"
| "inSubprocess (Ran ok) = True"
| "inSubprocess p = False"

fun hasSent :: "pc \<Rightarrow> bool" where
  "hasSent (Sent ok) = True"
| "hasSent (Done ok) = True"
| "hasSent p = False"

section \<open>Example inputs\<close>

text \<open>A standard error of three padded lines and an empty one: a warning that names a
  code, and two errors, the second between no-break spaces (U+00A0).\<close>

definition warn_and_errors :: string where
  "warn_and_errors =
     ''  npm WARN deprecated code foo  '' @ [CHR 0x0D, newline]
       @ [CHR 0x09] @ ''npm ERR! code ENOENT'' @ [CHR 0x0D, newline]
       @ [CHR 0xC2, CHR 0xA0] @ ''npm ERR! enoent no such file'' @ [CHR 0xC2, CHR 0xA0, newline]
       @ [newline]"

text \<open>A standard error without any marker, and one with six error lines.\<close>

definition no_marker_lines :: string where
  "no_marker_lines =
     [newline] @ ''  first line '' @ [newline, newline] @ ''second'' @ [CHR 0x0D, newline]
       @ '' third'' @ [newline] @ ''fourth''"

definition six_errors :: string where
  "six_errors =
     ''error 1'' @ [newline] @ ''error 2'' @ [newline] @ ''error 3'' @ [newline]
       @ ''error 4'' @ [newline] @ ''error 5'' @ [newline] @ ''error 6'' @ [newline]"

text \<open>A \<open>.config\<close> file with one dependency and one dev dependency.\<close>

definition config_text :: string where
  "config_text = ''Deps:'' @ [newline] @ ''- xypriss'' @ [newline] @ ''DevDeps:'' @ [newline]
                   @ ''  - typescript'' @ [newline]"

text \<open>A machine with npm but without bun, on which \<open>npm install -g bun\<close> fails, in a
  directory without \<open>package.json\<close>.\<close>

definition env_no_bun :: env where
  "env_no_bun =
     \<lparr>lookPath = (\<lambda>name. name = ''npm''), runs = (\<lambda>argv. False),
      statPackageJson = StatNotExist, configFile = Some config_text\<rparr>"

text \<open>The same machine, in a project directory.\<close>

definition env_no_bun_project :: env where
  "env_no_bun_project = env_no_bun\<lparr>statPackageJson := StatOk\<rparr>"

text \<open>Five packages, two of them dev dependencies, installed with bun.\<close>

definition five_packages :: batch where
  "five_packages =
     \<lparr>deps = [''a'', ''b'', ''c''], devDeps = [''d'', ''e''], useBun = True, strict = False\<rparr>"

text \<open>That batch with all four permits taken and the install of \<open>a\<close> failed.\<close>

definition five_packages_ran :: state where
  "five_packages_ran =
     \<lparr>gor = [Ran False, Acquired, Acquired, Start, Acquired], semaphore = 4,
      npmMutex = False, results = [], completed = 0, failedDeps = [],
      mainpc = Collecting, printed = [], observed = []\<rparr>"

text \<open>Three packages under strict mode; the dev dependency \<open>A\<close> is the one that fails,
  and the state in which the process has ended.\<close>

definition strict_three :: batch where
  "strict_three = \<lparr>deps = [''B'', ''C''], devDeps = [''A''], useBun = True, strict = True\<rparr>"

definition strict_three_exit :: state where
  "strict_three_exit =
     \<lparr>gor = [Running, Running, Sent False], semaphore = 3, npmMutex = False,
      results = [], completed = 0, failedDeps = [''A (dev)''], mainpc = Exited 1,
      printed = [''Installation failed in strict mode'', ''Failed package: A (dev)''],
      observed = [\<lparr>packageName = ''A'', success = False, isDev = True, index = 0\<rparr>]\<rparr>"

text \<open>The same batch when the dependency \<open>C\<close> is the one that fails.\<close>

definition strict_three_exit_regular :: state where
  "strict_three_exit_regular =
     \<lparr>gor = [Start, Sent False, Start], semaphore = 1, npmMutex = False,
      results = [], completed = 0, failedDeps = [''C''], mainpc = Exited 1,
      printed = [''Installation failed in strict mode'', ''Failed package: C''],
      observed = [\<lparr>packageName = ''C'', success = False, isDev = False, index = 1\<rparr>]\<rparr>"

text \<open>The package \<open>nquickdev\<close> given twice, with bun.\<close>

definition nquickdev_twice :: batch where
  "nquickdev_twice =
     \<lparr>deps = [''nquickdev'', ''nquickdev''], devDeps = [], useBun = True, strict = False\<rparr>"

text \<open>One dev dependency, with npm.\<close>

definition one_dev_dependency :: batch where
  "one_dev_dependency = \<lparr>deps = [], devDeps = [''typescript''], useBun = False, strict = False\<rparr>"



text \<open>A batch without packages.\<close>

definition no_packages :: batch where
  "no_packages = \<lparr>deps = [], devDeps = [], useBun = True, strict = False\<rparr>"


text \<open>The results sent so far, by goroutine: goroutine \<open>k + j\<close> is at the \<open>j\<close>-th control
  point of the list.\<close>

fun sentOne :: "batch \<Rightarrow> nat \<Rightarrow> pc \<Rightarrow> installResult list" where
  "sentOne b i (Sent ok) = [taskResult b i ok]"
| "sentOne b i (Done ok) = [taskResult b i ok]"
| "sentOne b i p = []"

fun sentFrom :: "batch \<Rightarrow> nat \<Rightarrow> pc list \<Rightarrow> installResult list" where
  "sentFrom b k [] = []"
| "sentFrom b k (p # ps) = sentOne b k p @ sentFrom b (Suc k) ps"

section \<open>Invariants of the batch\<close>

text \<open>The permits taken are those of the goroutines between acquire and release, and
  never more than \<open>maxConcurrent\<close>.\<close>

definition permits_inv :: "batch \<Rightarrow> state \<Rightarrow> bool" where
  "permits_inv b s =
     (length (gor s) = totalDeps b \<and> semaphore s = length (filter holdsPermit (gor s))
      \<and> semaphore s \<le> maxConcurrent b)"

text \<open>With the npm backend the lock is held exactly while one subprocess is in flight.\<close>

definition mutex_inv :: "batch \<Rightarrow> state \<Rightarrow> bool" where
  "mutex_inv b s =
     (useBun b \<or> length (filter inSubprocess (gor s)) = (if npmMutex s then 1 else 0))"

text \<open>The collection loop: \<open>failedDeps\<close> are the failures received, in order; what was
  received or waits in the channel is what the goroutines sent; \<open>completed\<close> counts
  the results received; the loop is left only when all have been received.\<close>

definition collect_inv :: "batch \<Rightarrow> state \<Rightarrow> bool" where
  "collect_inv b s =
     (failedDeps s = map failedLabel (filter (\<lambda>r. \<not> success r) (observed s))
      \<and> mset (observed s) + mset (results s) = mset (sentFrom b 0 (gor s))
      \<and> length (observed s) + length (results s) = length (filter hasSent (gor s))
      \<and> (exited s \<or> completed s = length (observed s))
      \<and> (mainpc s = Summary \<longrightarrow> completed s = totalDeps b))"

text \<open>Strict mode: once a failed result has been received the process has ended with
  exit code 1, that result is the last one received and the first failure, and the line
  printed names it; otherwise the process is alive and nothing has been printed.\<close>

definition strict_inv :: "batch \<Rightarrow> state \<Rightarrow> bool" where
  "strict_inv b s =
     (if strict b \<and> \<not> list_all success (observed s) then
        mainpc s = Exited 1 \<and> observed s \<noteq> []
        \<and> list_all success (butlast (observed s)) \<and> \<not> success (last (observed s))
        \<and> printed s = [''Installation failed in strict mode'',
                        ''Failed package: '' @ failedLabel (last (observed s))]
        \<and> completed s = length (butlast (observed s))
      else \<not> exited s \<and> printed s = [] \<and> completed s = length (observed s))"

definition batch_inv :: "batch \<Rightarrow> state \<Rightarrow> bool" where
  "batch_inv b s = (permits_inv b s \<and> mutex_inv b s \<and> collect_inv b s \<and> strict_inv b s)"



section \<open>The string functions are what their names say\<close>

lemma HasPrefix_iff: "HasPrefix s p = (\<exists>post. s = p @ post)"
proof
  assume "HasPrefix s p"
  then have "s = p @ drop (length p) s"
    by (metis HasPrefix_def append_take_drop_id)
  then show "\<exists>post. s = p @ post" ..
next
  assume "\<exists>post. s = p @ post"
  then show "HasPrefix s p"
    by (auto simp: HasPrefix_def)
qed

lemma Contains_iff: "Contains s substr = (\<exists>pre post. s = pre @ substr @ post)"
proof (induction s)
  case Nil
  then show ?case by auto
next
  case (Cons c cs)
  show ?case
  proof
    assume "Contains (c # cs) substr"
    then consider "HasPrefix (c # cs) substr" | "Contains cs substr" by auto
    then show "\<exists>pre post. c # cs = pre @ substr @ post"
    proof cases
      case 1
      then obtain post where "c # cs = [] @ substr @ post"
        by (auto simp: HasPrefix_iff)
      then show ?thesis by blast
    next
      case 2
      with Cons.IH obtain pre post where "cs = pre @ substr @ post" by auto
      then have "c # cs = (c # pre) @ substr @ post" by simp
      then show ?thesis by blast
    qed
  next
    assume "\<exists>pre post. c # cs = pre @ substr @ post"
    then obtain pre post where eq: "c # cs = pre @ substr @ post" by blast
    show "Contains (c # cs) substr"
    proof (cases pre)
      case Nil
      with eq have "HasPrefix (c # cs) substr"
        by (auto simp: HasPrefix_iff)
      then show ?thesis by simp
    next
      case (Cons a pre')
      with eq have "cs = pre' @ substr @ post" by simp
      with Cons.IH have "Contains cs substr" by blast
      then show ?thesis by simp
    qed
  qed
qed

lemma Split_not_Nil: "Split s \<noteq> []"
  by (induction s) (auto split: list.splits)

lemma Split_no_newline: "l \<in> set (Split s) \<Longrightarrow> newline \<notin> set l"
  by (induction s arbitrary: l) (auto split: list.splits if_splits)

lemma Split_join: "Join (Split s) = s"
proof (induction s)
  case Nil
  then show ?case by simp
next
  case (Cons c cs)
  then show ?case
    using Split_not_Nil [of cs]
    by (cases "Split cs"; cases "tl (Split cs)") (auto split: list.splits)
qed

lemma whiteSpace_nonempty: "w \<in> set whiteSpace \<Longrightarrow> w \<noteq> []"
  by (auto simp: whiteSpace_def)

lemma spaceAtStart_zero: "(spaceAtStart s = 0) = (\<forall>w\<in>set whiteSpace. \<not> HasPrefix s w)"
proof (cases "filter (HasPrefix s) whiteSpace")
  case Nil
  then show ?thesis
    by (simp add: spaceAtStart_def filter_empty_conv)
next
  case (Cons w ws)
  then have "w \<in> set (filter (HasPrefix s) whiteSpace)" by simp
  then have "w \<in> set whiteSpace" "HasPrefix s w" by simp_all
  with Cons whiteSpace_nonempty [of w] show ?thesis
    by (auto simp: spaceAtStart_def)
qed

lemma spaceAtStart_split:
  assumes "spaceAtStart s \<noteq> 0"
  shows "\<exists>w\<in>set whiteSpace. s = w @ drop (spaceAtStart s) s"
proof (cases "filter (HasPrefix s) whiteSpace")
  case Nil
  with assms show ?thesis by (simp add: spaceAtStart_def)
next
  case (Cons w ws)
  then have "w \<in> set (filter (HasPrefix s) whiteSpace)" by simp
  then have w: "w \<in> set whiteSpace" "HasPrefix s w" by simp_all
  from Cons have n: "spaceAtStart s = length w" by (simp add: spaceAtStart_def)
  from w(2) have "s = w @ drop (length w) s"
    by (metis HasPrefix_def append_take_drop_id)
  with w(1) n show ?thesis by auto
qed

lemma spaceAtEnd_split:
  assumes "spaceAtEnd s \<noteq> 0"
  shows "\<exists>w\<in>set whiteSpace. s = take (length s - spaceAtEnd s) s @ w"
proof (cases "filter (HasSuffix s) whiteSpace")
  case Nil
  with assms show ?thesis by (simp add: spaceAtEnd_def)
next
  case (Cons w ws)
  then have "w \<in> set (filter (HasSuffix s) whiteSpace)" by simp
  then have w: "w \<in> set whiteSpace" "HasSuffix s w" by simp_all
  from Cons have n: "spaceAtEnd s = length w" by (simp add: spaceAtEnd_def)
  from w(2) have "s = take (length s - length w) s @ w"
    by (metis HasSuffix_def append_take_drop_id)
  with w(1) n show ?thesis by auto
qed

lemma TrimLeftSpace_start: "spaceAtStart (TrimLeftSpace s) = 0"
proof (induction s rule: TrimLeftSpace.induct)
  case (1 s)
  then show ?case
    by (cases "spaceAtStart s = 0") (simp_all add: TrimLeftSpace.simps [of s])
qed

lemma TrimRightSpace_end: "spaceAtEnd (TrimRightSpace s) = 0"
proof (induction s rule: TrimRightSpace.induct)
  case (1 s)
  then show ?case
    by (cases "spaceAtEnd s = 0") (simp_all add: TrimRightSpace.simps [of s])
qed

lemma TrimLeftSpace_decomp:
  "\<exists>ws. set ws \<subseteq> set whiteSpace \<and> s = concat ws @ TrimLeftSpace s"
proof (induction s rule: TrimLeftSpace.induct)
  case (1 s)
  show ?case
  proof (cases "spaceAtStart s = 0")
    case True
    then have "set [] \<subseteq> set whiteSpace \<and> s = concat [] @ TrimLeftSpace s"
      by (simp add: TrimLeftSpace.simps [of s])
    then show ?thesis by blast
  next
    case False
    from spaceAtStart_split [OF False] obtain w where
      w: "w \<in> set whiteSpace" "s = w @ drop (spaceAtStart s) s" by blast
    from 1 [OF False] obtain ws where
      ws: "set ws \<subseteq> set whiteSpace"
        "drop (spaceAtStart s) s = concat ws @ TrimLeftSpace (drop (spaceAtStart s) s)" by blast
    from False have eq: "TrimLeftSpace s = TrimLeftSpace (drop (spaceAtStart s) s)"
      by (simp add: TrimLeftSpace.simps [of s])
    from w(2) ws(2) have "s = w @ concat ws @ TrimLeftSpace (drop (spaceAtStart s) s)"
      by simp
    with eq have "s = concat (w # ws) @ TrimLeftSpace s" by simp
    moreover from w(1) ws(1) have "set (w # ws) \<subseteq> set whiteSpace" by simp
    ultimately show ?thesis by blast
  qed
qed

lemma TrimRightSpace_decomp:
  "\<exists>ws. set ws \<subseteq> set whiteSpace \<and> s = TrimRightSpace s @ concat ws"
proof (induction s rule: TrimRightSpace.induct)
  case (1 s)
  show ?case
  proof (cases "spaceAtEnd s = 0")
    case True
    then have "set [] \<subseteq> set whiteSpace \<and> s = TrimRightSpace s @ concat []"
      by (simp add: TrimRightSpace.simps [of s])
    then show ?thesis by blast
  next
    case False
    from spaceAtEnd_split [OF False] obtain w where
      w: "w \<in> set whiteSpace" "s = take (length s - spaceAtEnd s) s @ w" by blast
    from 1 [OF False] obtain ws where
      ws: "set ws \<subseteq> set whiteSpace"
        "take (length s - spaceAtEnd s) s
           = TrimRightSpace (take (length s - spaceAtEnd s) s) @ concat ws" by blast
    from False have eq: "TrimRightSpace s = TrimRightSpace (take (length s - spaceAtEnd s) s)"
      by (simp add: TrimRightSpace.simps [of s])
    from w(2) ws(2) have
      "s = (TrimRightSpace (take (length s - spaceAtEnd s) s) @ concat ws) @ w"
      by simp
    with eq have "s = TrimRightSpace s @ concat (ws @ [w])" by simp
    moreover from w(1) ws(1) have "set (ws @ [w]) \<subseteq> set whiteSpace" by simp
    ultimately show ?thesis by blast
  qed
qed

lemma HasPrefix_append: "HasPrefix t w \<Longrightarrow> HasPrefix (t @ post) w"
  by (auto simp: HasPrefix_def)

lemma TrimSpace_edges: "spaceAtStart (TrimSpace s) = 0 \<and> spaceAtEnd (TrimSpace s) = 0"
proof -
  obtain ws where "TrimLeftSpace s = TrimRightSpace (TrimLeftSpace s) @ concat ws"
    using TrimRightSpace_decomp [of "TrimLeftSpace s"] by blast
  then have "HasPrefix (TrimLeftSpace s) w" if "HasPrefix (TrimSpace s) w" for w
    using that HasPrefix_append [of "TrimSpace s" w "concat ws"] by (simp add: TrimSpace_def)
  with TrimLeftSpace_start [of s] have "spaceAtStart (TrimSpace s) = 0"
    unfolding spaceAtStart_zero by blast
  with TrimRightSpace_end [of "TrimLeftSpace s"] show ?thesis
    by (simp add: TrimSpace_def)
qed

lemma TrimSpace_decomp:
  "\<exists>ws ws'. set ws \<subseteq> set whiteSpace \<and> set ws' \<subseteq> set whiteSpace
      \<and> s = concat ws @ TrimSpace s @ concat ws'"
proof -
  obtain ws where ws: "set ws \<subseteq> set whiteSpace" "s = concat ws @ TrimLeftSpace s"
    using TrimLeftSpace_decomp [of s] by blast
  obtain ws' where ws': "set ws' \<subseteq> set whiteSpace"
      "TrimLeftSpace s = TrimRightSpace (TrimLeftSpace s) @ concat ws'"
    using TrimRightSpace_decomp [of "TrimLeftSpace s"] by blast
  from ws(2) ws'(2) have "s = concat ws @ TrimSpace s @ concat ws'"
    by (simp add: TrimSpace_def)
  with ws(1) ws'(1) show ?thesis by blast
qed

lemma spaceAtEnd_zero: "(spaceAtEnd s = 0) = (\<forall>w\<in>set whiteSpace. \<not> HasSuffix s w)"
proof (cases "filter (HasSuffix s) whiteSpace")
  case Nil
  then show ?thesis
    by (simp add: spaceAtEnd_def filter_empty_conv)
next
  case (Cons w ws)
  then have "w \<in> set (filter (HasSuffix s) whiteSpace)" by simp
  then have "w \<in> set whiteSpace" "HasSuffix s w" by simp_all
  with Cons whiteSpace_nonempty [of w] show ?thesis
    by (auto simp: spaceAtEnd_def)
qed

lemma TrimSpace_subset: "set (TrimSpace s) \<subseteq> set s"
proof -
  obtain ws ws' where "s = concat ws @ TrimSpace s @ concat ws'"
    using TrimSpace_decomp [of s] by blast
  then have "set s = set (concat ws) \<union> set (TrimSpace s) \<union> set (concat ws')"
    by (metis set_append sup_assoc)
  then show ?thesis by blast
qed

lemma Split_subset: "l \<in> set (Split s) \<Longrightarrow> set l \<subseteq> set s"
proof (induction s arbitrary: l)
  case Nil
  then show ?case by simp
next
  case (Cons c cs)
  show ?case
  proof (cases "c = newline")
    case True
    with Cons show ?thesis by auto
  next
    case False
    obtain l0 ls where sp: "Split cs = l0 # ls"
      using Split_not_Nil [of cs] by (cases "Split cs") auto
    with False Cons.prems have "l = c # l0 \<or> l \<in> set ls" by simp
    then show ?thesis
    proof
      assume "l = c # l0"
      moreover from sp Cons.IH [of l0] have "set l0 \<subseteq> set cs" by simp
      ultimately show ?thesis by auto
    next
      assume "l \<in> set ls"
      with sp Cons.IH [of l] have "set l \<subseteq> set cs" by simp
      then show ?thesis by auto
    qed
  qed
qed

lemma toLowerChar_eq:
  "(toLowerChar c = d) =
     (if 65 \<le> (of_char c :: nat) \<and> (of_char c :: nat) \<le> 90
      then (of_char d :: nat) = of_char c + 32 else d = c)"
proof (cases "65 \<le> (of_char c :: nat) \<and> (of_char c :: nat) \<le> 90")
  case True
  then have "toLowerChar c = char_of ((of_char c :: nat) + 32)"
    by (simp add: toLowerChar_def)
  moreover have "(char_of ((of_char c :: nat) + 32) = d) = ((of_char d :: nat) = of_char c + 32)"
    using True by (auto simp: char_of_eq_iff take_bit_nat_eq_self)
  ultimately show ?thesis using True by auto
next
  case False
  then show ?thesis by (auto simp: toLowerChar_def Let_def)
qed

lemma toLowerChar_w: "(toLowerChar x = CHR ''w'') = (x = CHR ''w'' \<or> x = CHR ''W'')"
proof -
  have "((of_char x :: nat) = 87) = (x = CHR ''W'')"
    using of_char_eq_iff [of x "CHR ''W''", where ?'a = nat] by simp
  moreover have "((of_char x :: nat) = 119) = (x = CHR ''w'')"
    using of_char_eq_iff [of x "CHR ''w''", where ?'a = nat] by simp
  ultimately show ?thesis
    unfolding toLowerChar_eq by (auto split: if_splits)
qed


lemma toLowerChar_a: "(toLowerChar x = CHR ''a'') = (x = CHR ''a'' \<or> x = CHR ''A'')"
proof -
  have "((of_char x :: nat) = 65) = (x = CHR ''A'')"
    using of_char_eq_iff [of x "CHR ''A''", where ?'a = nat] by simp
  moreover have "((of_char x :: nat) = 97) = (x = CHR ''a'')"
    using of_char_eq_iff [of x "CHR ''a''", where ?'a = nat] by simp
  ultimately show ?thesis
    unfolding toLowerChar_eq by (auto split: if_splits)
qed

lemma toLowerChar_r: "(toLowerChar x = CHR ''r'') = (x = CHR ''r'' \<or> x = CHR ''R'')"
proof -
  have "((of_char x :: nat) = 82) = (x = CHR ''R'')"
    using of_char_eq_iff [of x "CHR ''R''", where ?'a = nat] by simp
  moreover have "((of_char x :: nat) = 114) = (x = CHR ''r'')"
    using of_char_eq_iff [of x "CHR ''r''", where ?'a = nat] by simp
  ultimately show ?thesis
    unfolding toLowerChar_eq by (auto split: if_splits)
qed

lemma toLowerChar_n: "(toLowerChar x = CHR ''n'') = (x = CHR ''n'' \<or> x = CHR ''N'')"
proof -
  have "((of_char x :: nat) = 78) = (x = CHR ''N'')"
    using of_char_eq_iff [of x "CHR ''N''", where ?'a = nat] by simp
  moreover have "((of_char x :: nat) = 110) = (x = CHR ''n'')"
    using of_char_eq_iff [of x "CHR ''n''", where ?'a = nat] by simp
  ultimately show ?thesis
    unfolding toLowerChar_eq by (auto split: if_splits)
qed

lemma HasPrefix_warn: "HasPrefix (map toLowerChar s) ''warn'' = warnAt s"
proof (cases s rule: warnAt.cases)
  case (1 a b c d rest)
  then show ?thesis
    by (simp add: HasPrefix_def toLowerChar_w toLowerChar_a toLowerChar_r toLowerChar_n)
qed (simp_all add: HasPrefix_def)

lemma Contains_lower_warn: "Contains (map toLowerChar s) ''warn'' = containsWarnAnyCase s"
proof (induction s)
  case Nil
  then show ?case by simp
next
  case (Cons c cs)
  have "Contains (map toLowerChar (c # cs)) ''warn''
      = (HasPrefix (map toLowerChar (c # cs)) ''warn'' \<or> Contains (map toLowerChar cs) ''warn'')"
    by simp
  with Cons show ?case
    by (simp only: HasPrefix_warn containsWarnAnyCase.simps)
qed

lemma ToLower_warn:
  "list_all isASCII s \<Longrightarrow> Contains (ToLower unicodeLower s) ''warn'' = containsWarnAnyCase s"
  by (simp add: ToLower_def Contains_lower_warn)

section \<open>The diagnostic: the loops as filters\<close>

lemma collectErrorLines_filter:
  "collectErrorLines unicodeLower ls acc =
     acc @ filter (isErrorLine unicodeLower) (filter (\<lambda>line. line \<noteq> []) (map TrimSpace ls))"
  by (induction ls arbitrary: acc) (simp_all add: Let_def)

lemma collectFirstLines_take:
  "collectFirstLines ls acc =
     acc @ take (3 - length acc) (filter (\<lambda>line. line \<noteq> []) (map TrimSpace ls))"
proof (induction ls arbitrary: acc)
  case Nil
  then show ?case by simp
next
  case (Cons l ls)
  show ?case
  proof (cases "TrimSpace l \<noteq> [] \<and> length acc < 3")
    case True
    then have "3 - length acc = Suc (3 - Suc (length acc))" by arith
    with True Cons.IH [of "acc @ [TrimSpace l]"] show ?thesis
      by (simp add: Let_def)
  next
    case False
    with Cons.IH [of acc] show ?thesis
      by (auto simp: Let_def)
  qed
qed

text \<open>A trimmed line is what is left of a line of the text between white space; it is
  not empty and has white space at neither end.\<close>

lemma trimmedLines_line:
  assumes "line \<in> set (trimmedLines errOutput)"
  shows "line \<noteq> [] \<and> spaceAtStart line = 0 \<and> spaceAtEnd line = 0
         \<and> (\<exists>raw ws ws'. raw \<in> set (Split errOutput) \<and> set ws \<subseteq> set whiteSpace
               \<and> set ws' \<subseteq> set whiteSpace \<and> raw = concat ws @ line @ concat ws')"
proof -
  from assms obtain raw where raw: "raw \<in> set (Split errOutput)" "line = TrimSpace raw"
    and ne: "line \<noteq> []"
    by (auto simp: trimmedLines_def)
  from TrimSpace_decomp [of raw] raw(2) obtain ws ws' where
    "set ws \<subseteq> set whiteSpace" "set ws' \<subseteq> set whiteSpace" "raw = concat ws @ line @ concat ws'"
    by blast
  with raw(1) have "\<exists>raw ws ws'. raw \<in> set (Split errOutput) \<and> set ws \<subseteq> set whiteSpace
               \<and> set ws' \<subseteq> set whiteSpace \<and> raw = concat ws @ line @ concat ws'"
    by blast
  with ne raw(2) TrimSpace_edges [of raw] show ?thesis
    by simp
qed

lemma trimmedLines_ascii:
  assumes "list_all isASCII errOutput" and "line \<in> set (trimmedLines errOutput)"
  shows "list_all isASCII line"
proof -
  from assms(2) obtain raw where raw: "raw \<in> set (Split errOutput)" "line = TrimSpace raw"
    by (auto simp: trimmedLines_def)
  from raw(1) have "set raw \<subseteq> set errOutput" by (rule Split_subset)
  with raw(2) TrimSpace_subset [of raw] have "set line \<subseteq> set errOutput" by blast
  with assms(1) show ?thesis
    by (auto simp: list_all_iff)
qed

section \<open>The invariants hold in every step\<close>

lemma count_update:
  "i < length xs \<Longrightarrow>
     length (filter P (xs[i := y])) + (if P (xs ! i) then 1 else 0)
       = length (filter P xs) + (if P y then 1 else 0)"
proof (induction xs arbitrary: i)
  case Nil
  then show ?case by simp
next
  case (Cons x xs)
  show ?case
  proof (cases i)
    case 0
    then show ?thesis by simp
  next
    case (Suc j)
    with Cons.prems have "j < length xs" by simp
    from Cons.IH [OF this] Suc show ?thesis by simp
  qed
qed

lemma count_pos: "i < length xs \<Longrightarrow> P (xs ! i) \<Longrightarrow> 0 < length (filter P xs)"
  by (metis length_pos_if_in_set nth_mem mem_Collect_eq set_filter)

lemma permits_inv_init: "permits_inv b (init b)"
  by (simp add: permits_inv_def init_def)

lemma permits_inv_step:
  assumes "permits_inv b s" and "step b s e = Some s'"
  shows "permits_inv b s'"
proof (cases e)
  case (Acquire i)
  with assms show ?thesis
    using count_update [of i "gor s" holdsPermit Acquired]
    by (auto simp: permits_inv_def at_def split: if_splits)
next
  case (Launch i)
  with assms show ?thesis
    using count_update [of i "gor s" holdsPermit Running]
    by (auto simp: permits_inv_def at_def split: if_splits)
next
  case (Exit i ok)
  with assms show ?thesis
    using count_update [of i "gor s" holdsPermit "Ran ok"]
    by (auto simp: permits_inv_def at_def split: if_splits)
next
  case (Return i)
  with assms show ?thesis
    using count_update [of i "gor s" holdsPermit "Returned True"]
      count_update [of i "gor s" holdsPermit "Returned False"]
    by (auto simp: permits_inv_def at_def Let_def split: if_splits)
next
  case (Send i)
  with assms show ?thesis
    using count_update [of i "gor s" holdsPermit "Sent True"]
      count_update [of i "gor s" holdsPermit "Sent False"]
    by (auto simp: permits_inv_def at_def Let_def split: if_splits)
next
  case (Release i)
  with assms show ?thesis
    using count_update [of i "gor s" holdsPermit "Done True"]
      count_update [of i "gor s" holdsPermit "Done False"]
    by (auto simp: permits_inv_def at_def Let_def split: if_splits)
next
  case Receive
  with assms show ?thesis
    by (auto simp: permits_inv_def split: if_splits list.splits)
next
  case Finish
  with assms show ?thesis
    by (auto simp: permits_inv_def split: if_splits)
qed

lemma mutex_inv_init: "mutex_inv b (init b)"
  by (simp add: mutex_inv_def init_def)

lemma mutex_inv_step:
  assumes "mutex_inv b s" and "step b s e = Some s'"
  shows "mutex_inv b s'"
proof (cases e)
  case (Acquire i)
  with assms show ?thesis
    using count_update [of i "gor s" inSubprocess Acquired]
    by (auto simp: mutex_inv_def at_def split: if_splits)
next
  case (Launch i)
  with assms show ?thesis
    using count_update [of i "gor s" inSubprocess Running]
    by (auto simp: mutex_inv_def at_def split: if_splits)
next
  case (Exit i ok)
  with assms show ?thesis
    using count_update [of i "gor s" inSubprocess "Ran ok"]
    by (auto simp: mutex_inv_def at_def split: if_splits)
next
  case (Return i)
  with assms show ?thesis
    using count_update [of i "gor s" inSubprocess "Returned True"]
      count_update [of i "gor s" inSubprocess "Returned False"]
    by (auto simp: mutex_inv_def at_def Let_def split: if_splits)
next
  case (Send i)
  with assms show ?thesis
    using count_update [of i "gor s" inSubprocess "Sent True"]
      count_update [of i "gor s" inSubprocess "Sent False"]
    by (auto simp: mutex_inv_def at_def Let_def split: if_splits)
next
  case (Release i)
  with assms show ?thesis
    using count_update [of i "gor s" inSubprocess "Done True"]
      count_update [of i "gor s" inSubprocess "Done False"]
    by (auto simp: mutex_inv_def at_def Let_def split: if_splits)
next
  case Receive
  with assms show ?thesis
    by (auto simp: mutex_inv_def split: if_splits list.splits)
next
  case Finish
  with assms show ?thesis
    by (auto simp: mutex_inv_def split: if_splits)
qed

lemma sentFrom_update:
  "i < length ps \<Longrightarrow>
     mset (sentFrom b k (ps[i := q])) + mset (sentOne b (k + i) (ps ! i))
       = mset (sentFrom b k ps) + mset (sentOne b (k + i) q)"
proof (induction ps arbitrary: i k)
  case Nil
  then show ?case by simp
next
  case (Cons p ps)
  show ?case
  proof (cases i)
    case 0
    then show ?thesis by simp
  next
    case (Suc j)
    with Cons.prems have "j < length ps" by simp
    from Cons.IH [OF this, of "Suc k"] Suc show ?thesis by simp
  qed
qed


lemma collect_inv_init: "collect_inv b (init b)"
proof -
  have "sentFrom b k (replicate n Start) = []" for k n
    by (induction n arbitrary: k) simp_all
  then show ?thesis
    by (simp add: collect_inv_def init_def exited_def)
qed

lemma filter_le: "length (filter P xs) \<le> length xs"
  by simp

lemma collect_inv_step:
  assumes "collect_inv b s" and len: "length (gor s) = totalDeps b" and "\<not> exited s"
    and "step b s e = Some s'"
  shows "collect_inv b s'"
proof (cases e)
  case (Acquire i)
  with assms show ?thesis
    using count_update [of i "gor s" hasSent Acquired] sentFrom_update [of i "gor s" b 0 Acquired]
    by (auto simp: collect_inv_def at_def exited_def split: if_splits)
next
  case (Launch i)
  with assms show ?thesis
    using count_update [of i "gor s" hasSent Running] sentFrom_update [of i "gor s" b 0 Running]
    by (auto simp: collect_inv_def at_def exited_def split: if_splits)
next
  case (Exit i ok)
  with assms show ?thesis
    using count_update [of i "gor s" hasSent "Ran ok"] sentFrom_update [of i "gor s" b 0 "Ran ok"]
    by (auto simp: collect_inv_def at_def exited_def split: if_splits)
next
  case (Return i)
  with assms show ?thesis
    using count_update [of i "gor s" hasSent "Returned True"]
      count_update [of i "gor s" hasSent "Returned False"]
      sentFrom_update [of i "gor s" b 0 "Returned True"]
      sentFrom_update [of i "gor s" b 0 "Returned False"]
    by (auto simp: collect_inv_def at_def exited_def Let_def split: if_splits)
next
  case (Send i)
  with assms show ?thesis
    using count_update [of i "gor s" hasSent "Sent True"]
      count_update [of i "gor s" hasSent "Sent False"]
      sentFrom_update [of i "gor s" b 0 "Sent True"]
      sentFrom_update [of i "gor s" b 0 "Sent False"]
    by (auto simp: collect_inv_def at_def exited_def Let_def split: if_splits)
next
  case (Release i)
  with assms show ?thesis
    using count_update [of i "gor s" hasSent "Done True"]
      count_update [of i "gor s" hasSent "Done False"]
      sentFrom_update [of i "gor s" b 0 "Done True"]
      sentFrom_update [of i "gor s" b 0 "Done False"]
    by (auto simp: collect_inv_def at_def exited_def Let_def split: if_splits)
next
  case Receive
  with assms show ?thesis
    by (auto simp: collect_inv_def exited_def split: if_splits list.splits)
next
  case Finish
  from assms have "length (observed s) \<le> totalDeps b"
    using filter_le [of hasSent "gor s"] by (simp add: collect_inv_def)
  with Finish assms show ?thesis
    by (auto simp: collect_inv_def exited_def split: if_splits)
qed

lemma strict_inv_init: "strict_inv b (init b)"
  by (simp add: strict_inv_def init_def exited_def)

lemma step_goroutine_frame:
  assumes "step b s e = Some s'" and "e \<noteq> Receive" and "e \<noteq> Finish"
  shows "observed s' = observed s \<and> printed s' = printed s \<and> completed s' = completed s
         \<and> mainpc s' = mainpc s \<and> failedDeps s' = failedDeps s"
  using assms by (cases e) (auto simp: Let_def split: if_splits)

lemma step_main_frame:
  assumes "step b s e = Some s'" and "e = Receive \<or> e = Finish"
  shows "gor s' = gor s \<and> semaphore s' = semaphore s \<and> npmMutex s' = npmMutex s"
  using assms by (auto split: if_splits list.splits)

lemma strict_inv_step:
  assumes inv: "strict_inv b s" and ne: "\<not> exited s" and st: "step b s e = Some s'"
  shows "strict_inv b s'"
proof -
  from inv ne have cur: "printed s = []" "completed s = length (observed s)"
      "strict b \<Longrightarrow> list_all success (observed s)"
    by (auto simp: strict_inv_def exited_def split: if_splits)
  show ?thesis
  proof (cases "e = Receive \<or> e = Finish")
    case False
    with step_goroutine_frame [OF st] ne cur show ?thesis
      by (auto simp: strict_inv_def exited_def)
  next
    case True
    then show ?thesis
    proof
      assume "e = Finish"
      with st cur ne show ?thesis
        by (auto simp: strict_inv_def exited_def split: if_splits)
    next
      assume "e = Receive"
      with st cur ne show ?thesis
        by (auto simp: strict_inv_def exited_def split: if_splits list.splits)
    qed
  qed
qed

lemma batch_inv_init: "batch_inv b (init b)"
  by (simp add: batch_inv_def permits_inv_init mutex_inv_init collect_inv_init strict_inv_init)

lemma batch_inv_next:
  assumes "batch_inv b s" and "next_state b s e = Some s'"
  shows "batch_inv b s'"
proof -
  from assms(2) have ne: "\<not> exited s" and st: "step b s e = Some s'"
    by (auto simp: next_state_def split: if_splits)
  from assms(1) have "length (gor s) = totalDeps b"
    by (simp add: batch_inv_def permits_inv_def)
  with assms(1) ne st show ?thesis
    unfolding batch_inv_def
    using permits_inv_step mutex_inv_step collect_inv_step strict_inv_step by blast
qed

lemma batch_inv_run:
  "batch_inv b s \<Longrightarrow> run b s evs = Some s' \<Longrightarrow> batch_inv b s'"
proof (induction evs arbitrary: s)
  case Nil
  then show ?case by simp
next
  case (Cons e evs)
  then show ?case
    by (auto split: option.splits dest: batch_inv_next)
qed

lemma reachable_inv: "run b (init b) evs = Some s \<Longrightarrow> batch_inv b s"
  using batch_inv_run [OF batch_inv_init] .

section \<open>The batch never gets stuck before the summary\<close>



lemma count_less: "i < length xs \<Longrightarrow> \<not> P (xs ! i) \<Longrightarrow> length (filter P xs) < length xs"
  by (metis length_filter_less nth_mem)







lemma count_mono:
  "(\<And>x. P x \<Longrightarrow> Q x) \<Longrightarrow> length (filter P xs) \<le> length (filter Q xs)"
  by (induction xs) auto

lemma inSubprocess_holdsPermit: "inSubprocess p \<Longrightarrow> holdsPermit p"
  by (cases p) simp_all



text \<open>With the npm backend at most one subprocess is in flight, and the lock is held
  exactly then.\<close>

lemma npm_backend_one_subprocess:
  assumes "\<not> useBun b" and "run b (init b) evs = Some s"
  shows "length (filter inSubprocess (gor s)) = (if npmMutex s then 1 else 0)"
  using reachable_inv [OF assms(2)] assms(1)
  by (simp add: batch_inv_def mutex_inv_def)

text \<open>With the bun backend nothing keeps two bun subprocesses apart.\<close>

lemma bun_backend_two_subprocesses:
  "run five_packages (init five_packages) [Acquire 0, Acquire 1, Launch 0, Launch 1]
     = Some \<lparr>gor = [Running, Running, Start, Start, Start], semaphore = 2, npmMutex = False,
             results = [], completed = 0, failedDeps = [], mainpc = Collecting, printed = [],
             observed = []\<rparr>
   \<and> taskCmd five_packages 0 = [''bun'', ''add'', ''a'']
   \<and> taskCmd five_packages 1 = [''bun'', ''add'', ''b'']"
  by code_simp

text \<open>Every result received was sent by a goroutine of the batch, which is past its
  send and carries the outcome of the result.\<close>

lemma sentFrom_mem:
  "r \<in> set (sentFrom b k ps) \<Longrightarrow>
     \<exists>j<length ps. \<exists>ok. r = taskResult b (k + j) ok \<and> (ps ! j = Sent ok \<or> ps ! j = Done ok)"
proof (induction ps arbitrary: k)
  case Nil
  then show ?case by simp
next
  case (Cons p ps)
  from Cons.prems have "r \<in> set (sentOne b k p) \<or> r \<in> set (sentFrom b (Suc k) ps)"
    by simp
  then show ?case
  proof
    assume "r \<in> set (sentOne b k p)"
    then have "\<exists>ok. r = taskResult b k ok \<and> (p = Sent ok \<or> p = Done ok)"
      by (cases p) simp_all
    then have "\<exists>ok. r = taskResult b (k + 0) ok
                   \<and> ((p # ps) ! 0 = Sent ok \<or> (p # ps) ! 0 = Done ok)"
      by simp
    then show ?thesis
      by blast
  next
    assume "r \<in> set (sentFrom b (Suc k) ps)"
    from Cons.IH [OF this] obtain j ok where "j < length ps"
      and "r = taskResult b (Suc k + j) ok" and "ps ! j = Sent ok \<or> ps ! j = Done ok"
      by blast
    then have "Suc j < length (p # ps) \<and> r = taskResult b (k + Suc j) ok
                 \<and> ((p # ps) ! Suc j = Sent ok \<or> (p # ps) ! Suc j = Done ok)"
      by simp
    then show ?thesis
      by blast
  qed
qed

lemma observed_sent:
  assumes "collect_inv b s" and "permits_inv b s" and "r \<in> set (observed s)"
  shows "\<exists>i<totalDeps b. r = taskResult b i (success r)
            \<and> (gor s ! i = Sent (success r) \<or> gor s ! i = Done (success r))"
proof -
  from assms(1) have "mset (observed s) + mset (results s) = mset (sentFrom b 0 (gor s))"
    by (simp add: collect_inv_def)
  then have "set (observed s) \<union> set (results s) = set (sentFrom b 0 (gor s))"
    by (metis set_mset_mset set_mset_union)
  with assms(3) have "r \<in> set (sentFrom b 0 (gor s))"
    by blast
  from sentFrom_mem [OF this] obtain j ok where j: "j < length (gor s)"
    and r: "r = taskResult b j ok" and g: "gor s ! j = Sent ok \<or> gor s ! j = Done ok"
    by auto
  from r have "success r = ok"
    by (simp add: taskResult_def)
  moreover from assms(2) have "length (gor s) = totalDeps b"
    by (simp add: permits_inv_def)
  ultimately show ?thesis
    using j r g by auto
qed

text \<open>After the exit no event is enabled.\<close>

lemma exited_stuck: "exited s \<Longrightarrow> next_state b s e = None"
  by (simp add: next_state_def)

section \<open>The claims\<close>

subsection \<open>The diagnostic of a failed task\<close>

text \<open>
  C3.  For a failed task whose captured standard error is not empty, the diagnostic is
  made of the trimmed non-empty lines of the standard error, in their order: those that
  contain one of \<open>ERR!\<close>, \<open>error\<close>, \<open>404\<close>, \<open>ENOENT\<close>, \<open>ENOTEMPTY\<close>, \<open>code\<close> and
  whose lower-case form does not contain \<open>warn\<close>; if there is none, the first three
  lines instead; and of either at most the first five.  Every line of it is what is
  left of a line of the standard error between white space and is not empty.  When the
  standard error is ASCII, the lines left out for \<open>warn\<close> are those with the letters
  w, a, r, n in a row in any mix of cases.
\<close>

theorem diagnostic_extraction:
  assumes "err" and "errOutput \<noteq> []"
  shows "installPackageParallel_diagnostic unicodeLower err errOutput =
           (let matching =
                  filter (\<lambda>line.
                      (Contains line ''ERR!'' \<or> Contains line ''error'' \<or> Contains line ''404''
                        \<or> Contains line ''ENOENT'' \<or> Contains line ''ENOTEMPTY''
                        \<or> Contains line ''code'')
                      \<and> \<not> Contains (ToLower unicodeLower line) ''warn'')
                    (trimmedLines errOutput)
            in take 5 (if matching = [] then take 3 (trimmedLines errOutput) else matching))
         \<and> length (installPackageParallel_diagnostic unicodeLower err errOutput) \<le> 5
         \<and> (\<forall>line \<in> set (installPackageParallel_diagnostic unicodeLower err errOutput).
               line \<noteq> [] \<and> spaceAtStart line = 0 \<and> spaceAtEnd line = 0
               \<and> (\<exists>raw ws ws'. raw \<in> set (Split errOutput) \<and> set ws \<subseteq> set whiteSpace
                     \<and> set ws' \<subseteq> set whiteSpace \<and> raw = concat ws @ line @ concat ws'))
         \<and> (list_all isASCII errOutput \<longrightarrow>
               installPackageParallel_diagnostic unicodeLower err errOutput =
                 (let matching =
                        filter (\<lambda>line.
                            (Contains line ''ERR!'' \<or> Contains line ''error''
                              \<or> Contains line ''404'' \<or> Contains line ''ENOENT''
                              \<or> Contains line ''ENOTEMPTY'' \<or> Contains line ''code'')
                            \<and> \<not> containsWarnAnyCase line)
                          (trimmedLines errOutput)
                  in take 5 (if matching = [] then take 3 (trimmedLines errOutput)
                             else matching)))"
proof -
  define marker where "marker = (\<lambda>line.
      Contains line ''ERR!'' \<or> Contains line ''error'' \<or> Contains line ''404''
        \<or> Contains line ''ENOENT'' \<or> Contains line ''ENOTEMPTY'' \<or> Contains line ''code'')"
  define lower where "lower = (\<lambda>line. marker line \<and> \<not> Contains (ToLower unicodeLower line) ''warn'')"
  define anycase where "anycase = (\<lambda>line. marker line \<and> \<not> containsWarnAnyCase line)"
  define tl where "tl = trimmedLines errOutput"
  define diag where "diag = installPackageParallel_diagnostic unicodeLower err errOutput"
  have "isErrorLine unicodeLower = lower"
    by (rule ext) (simp only: isErrorLine_def lower_def marker_def)
  then have "collectErrorLines unicodeLower ls [] =
      filter lower (filter (\<lambda>line. line \<noteq> []) (map TrimSpace ls))" for ls
    using collectErrorLines_filter [of unicodeLower ls "[]"] by simp
  with assms have eq: "diag = take 5 (if filter lower tl = [] then take 3 tl else filter lower tl)"
    by (simp add: diag_def tl_def installPackageParallel_diagnostic_def errorDiagnostic_def
        trimmedLines_def collectFirstLines_take Let_def)
  then have len: "length diag \<le> 5"
    by simp
  have "set diag \<subseteq> set tl"
  proof (cases "filter lower tl = []")
    case True
    with eq have "diag = take 5 (take 3 tl)" by simp
    then show ?thesis
      by (metis set_take_subset subset_trans)
  next
    case False
    with eq have "diag = take 5 (filter lower tl)" by simp
    then show ?thesis
      by (metis set_take_subset filter_is_subset subset_trans)
  qed
  then have lines: "\<forall>line \<in> set diag.
      line \<noteq> [] \<and> spaceAtStart line = 0 \<and> spaceAtEnd line = 0
      \<and> (\<exists>raw ws ws'. raw \<in> set (Split errOutput) \<and> set ws \<subseteq> set whiteSpace
            \<and> set ws' \<subseteq> set whiteSpace \<and> raw = concat ws @ line @ concat ws')"
    using trimmedLines_line [of _ errOutput] unfolding tl_def by blast
  have ascii: "diag = take 5 (if filter anycase tl = [] then take 3 tl else filter anycase tl)"
    if "list_all isASCII errOutput"
  proof -
    have "lower line = anycase line" if "line \<in> set tl" for line
      using trimmedLines_ascii [OF \<open>list_all isASCII errOutput\<close>] that
      by (simp add: lower_def anycase_def tl_def ToLower_warn)
    then have "filter lower tl = filter anycase tl"
      by (simp cong: filter_cong)
    with eq show ?thesis by simp
  qed
  from eq len lines ascii show ?thesis
    unfolding diag_def tl_def lower_def anycase_def marker_def Let_def by blast
qed

theorem diagnostic_extraction_witness:
  "warn_and_errors \<noteq> []
   \<and> installPackageParallel_diagnostic (\<lambda>s. s) True warn_and_errors
       = [''npm ERR! code ENOENT'', ''npm ERR! enoent no such file'']
   \<and> no_marker_lines \<noteq> []
   \<and> installPackageParallel_diagnostic (\<lambda>s. s) True no_marker_lines
       = [''first line'', ''second'', ''third'']
   \<and> six_errors \<noteq> []
   \<and> installPackageParallel_diagnostic (\<lambda>s. s) True six_errors
       = [''error 1'', ''error 2'', ''error 3'', ''error 4'', ''error 5'']"
proof -
  have ne: "warn_and_errors \<noteq> []" "no_marker_lines \<noteq> []" "six_errors \<noteq> []"
    by (simp_all add: warn_and_errors_def no_marker_lines_def six_errors_def)
  have v1: "(let matching =
                  filter (\<lambda>line.
                      (Contains line ''ERR!'' \<or> Contains line ''error'' \<or> Contains line ''404''
                        \<or> Contains line ''ENOENT'' \<or> Contains line ''ENOTEMPTY''
                        \<or> Contains line ''code'')
                      \<and> \<not> Contains (ToLower (\<lambda>s. s) line) ''warn'')
                    (trimmedLines warn_and_errors)
            in take 5 (if matching = [] then take 3 (trimmedLines warn_and_errors) else matching))
        = [''npm ERR! code ENOENT'', ''npm ERR! enoent no such file'']"
    by code_simp
  have v2: "(let matching =
                  filter (\<lambda>line.
                      (Contains line ''ERR!'' \<or> Contains line ''error'' \<or> Contains line ''404''
                        \<or> Contains line ''ENOENT'' \<or> Contains line ''ENOTEMPTY''
                        \<or> Contains line ''code'')
                      \<and> \<not> Contains (ToLower (\<lambda>s. s) line) ''warn'')
                    (trimmedLines no_marker_lines)
            in take 5 (if matching = [] then take 3 (trimmedLines no_marker_lines) else matching))
        = [''first line'', ''second'', ''third'']"
    by code_simp
  have v3: "(let matching =
                  filter (\<lambda>line.
                      (Contains line ''ERR!'' \<or> Contains line ''error'' \<or> Contains line ''404''
                        \<or> Contains line ''ENOENT'' \<or> Contains line ''ENOTEMPTY''
                        \<or> Contains line ''code'')
                      \<and> \<not> Contains (ToLower (\<lambda>s. s) line) ''warn'')
                    (trimmedLines six_errors)
            in take 5 (if matching = [] then take 3 (trimmedLines six_errors) else matching))
        = [''error 1'', ''error 2'', ''error 3'', ''error 4'', ''error 5'']"
    by code_simp
  from diagnostic_extraction [OF TrueI ne(1), of "\<lambda>s. s"] v1
  have d1: "installPackageParallel_diagnostic (\<lambda>s. s) True warn_and_errors
       = [''npm ERR! code ENOENT'', ''npm ERR! enoent no such file'']"
    by (simp only:)
  from diagnostic_extraction [OF TrueI ne(2), of "\<lambda>s. s"] v2
  have d2: "installPackageParallel_diagnostic (\<lambda>s. s) True no_marker_lines
       = [''first line'', ''second'', ''third'']"
    by (simp only:)
  from diagnostic_extraction [OF TrueI ne(3), of "\<lambda>s. s"] v3
  have d3: "installPackageParallel_diagnostic (\<lambda>s. s) True six_errors
       = [''error 1'', ''error 2'', ''error 3'', ''error 4'', ''error 5'']"
    by (simp only:)
  from ne d1 d2 d3 show ?thesis
    by blast
qed

subsection \<open>The named exception\<close>

text \<open>
  C6.  With the bun backend, the package \<open>nquickdev\<close> is installed by an npm command
  and every other package by a bun command: in the command of a task, in the command of
  the \<open>i\<close>-th task of a batch, and in the command of the one-package entry point.
\<close>

theorem named_exception:
  "installPackageParallel_cmd ''nquickdev'' True = [''npm'', ''install'', ''nquickdev'']
   \<and> (name \<noteq> ''nquickdev'' \<longrightarrow> installPackageParallel_cmd name True = [''bun'', ''add'', name])
   \<and> (useBun b \<longrightarrow>
        taskCmd b i = (if taskName b i = ''nquickdev'' then [''npm'', ''install'', ''nquickdev'']
                       else [''bun'', ''add'', taskName b i]))
   \<and> hd (installSingleDependency_cmd ''nquickdev'' dev True) = ''npm''
   \<and> (name \<noteq> ''nquickdev'' \<longrightarrow> hd (installSingleDependency_cmd name dev True) = ''bun'')"
  by (simp add: installPackageParallel_cmd_def installSingleDependency_cmd_def taskCmd_def)

theorem named_exception_witness:
  "''cors'' \<noteq> ''nquickdev'' \<and> useBun five_packages
   \<and> installPackageParallel_cmd ''cors'' True = [''bun'', ''add'', ''cors'']
   \<and> taskCmd five_packages 3 = [''bun'', ''add'', ''d'']
   \<and> hd (installSingleDependency_cmd ''cors'' True True) = ''bun''"
proof -
  have ne: "''cors'' \<noteq> ''nquickdev''" by simp
  have ub: "useBun five_packages" by (simp add: five_packages_def)
  have nm: "taskName five_packages 3 = ''d''" by (simp add: taskName_def five_packages_def)
  from named_exception [of "''cors''" five_packages 3 True] ne ub nm show ?thesis
    by simp
qed

subsection \<open>The backend in auto mode\<close>

text \<open>
  C8.  In auto mode (the mode is neither \<open>b\<close> nor \<open>n\<close>) without bun on the search path,
  \<open>installDependencies\<close> runs \<open>npm install -g bun\<close> once, with both streams discarded.
  If that succeeds the batch runs with bun.  If it fails, npm is looked up: when it is
  found the batch runs with npm, and only when it is missing the function returns
  without a batch.  \<open>InstallPackages\<close> makes no such attempt: it looks npm up at once,
  runs the batch with npm when it is found and returns without a batch when it is
  missing.
\<close>

theorem auto_mode_fallback:
  assumes "mode \<noteq> ''b''" and "mode \<noteq> ''n''" and "\<not> lookPath e ''bun''"
  shows "determineMode_init e mode =
           (if runs e [''npm'', ''install'', ''-g'', ''bun'']
            then ([LookPath ''bun'', Exec [''npm'', ''install'', ''-g'', ''bun''] Discard Discard],
                  Some True)
            else ([LookPath ''bun'', Exec [''npm'', ''install'', ''-g'', ''bun''] Discard Discard,
                   LookPath ''npm''],
                  if lookPath e ''npm'' then Some False else None))
         \<and> (\<forall>data ds dds.
               configFile e = Some data \<and> parseConfig (Split data) False False [] [] = (ds, dds)
               \<longrightarrow>
               snd (installDependencies e mode st) =
                 (if runs e [''npm'', ''install'', ''-g'', ''bun'']
                  then RunsBatch \<lparr>deps = ds, devDeps = dds, useBun = True, strict = st\<rparr>
                  else if lookPath e ''npm''
                  then RunsBatch \<lparr>deps = ds, devDeps = dds, useBun = False, strict = st\<rparr>
                  else Returns))
         \<and> determineMode_install e mode =
               ([LookPath ''bun'', LookPath ''npm''],
                if lookPath e ''npm'' then Some False else None)
         \<and> (statPackageJson e \<noteq> StatNotExist \<longrightarrow>
               InstallPackages e packages mode =
                 ([Stat ''package.json'', LookPath ''bun'', LookPath ''npm''],
                  if lookPath e ''npm''
                  then RunsBatch \<lparr>deps = packages, devDeps = [], useBun = False, strict = False\<rparr>
                  else Returns))"
  using assms
  by (simp add: determineMode_init_def installDependencies_def installBun_def installBun_cmd_def
      determineMode_install_def InstallPackages_def)

theorem auto_mode_fallback_witness:
  "''auto'' \<noteq> ''b'' \<and> ''auto'' \<noteq> ''n'' \<and> \<not> lookPath env_no_bun ''bun''
   \<and> \<not> runs env_no_bun [''npm'', ''install'', ''-g'', ''bun''] \<and> lookPath env_no_bun ''npm''
   \<and> determineMode_init env_no_bun ''auto'' =
        ([LookPath ''bun'', Exec [''npm'', ''install'', ''-g'', ''bun''] Discard Discard,
          LookPath ''npm''], Some False)
   \<and> snd (installDependencies env_no_bun ''auto'' True) =
        RunsBatch \<lparr>deps = [''xypriss''], devDeps = [''typescript''], useBun = False, strict = True\<rparr>
   \<and> determineMode_install env_no_bun ''auto'' = ([LookPath ''bun'', LookPath ''npm''], Some False)"
proof -
  have nb: "\<not> lookPath env_no_bun ''bun''" by (simp add: env_no_bun_def)
  have cf: "configFile env_no_bun = Some config_text"
    by (simp add: env_no_bun_def)
  have ps: "parseConfig (Split config_text) False False [] [] = ([''xypriss''], [''typescript''])"
    by code_simp
  have rn: "\<not> runs env_no_bun [''npm'', ''install'', ''-g'', ''bun'']" "lookPath env_no_bun ''npm''"
    by (simp_all add: env_no_bun_def)
  from auto_mode_fallback [of "''auto''" env_no_bun True, OF _ _ nb] cf ps rn nb show ?thesis
    by simp
qed

text \<open>
  For \<open>InstallPackages\<close> the provision does not happen: in a project directory on the
  machine without bun, in auto mode, its calls are the \<open>Stat\<close> and the two lookups, and
  the batch runs with npm.
\<close>

theorem auto_mode_install_counterexample:
  "''auto'' \<noteq> ''b'' \<and> ''auto'' \<noteq> ''n'' \<and> \<not> lookPath env_no_bun_project ''bun''
   \<and> InstallPackages env_no_bun_project [''cors''] ''auto'' =
        ([Stat ''package.json'', LookPath ''bun'', LookPath ''npm''],
         RunsBatch \<lparr>deps = [''cors''], devDeps = [], useBun = False, strict = False\<rparr>)
   \<and> Exec [''npm'', ''install'', ''-g'', ''bun''] Discard Discard
        \<notin> set (fst (InstallPackages env_no_bun_project [''cors''] ''auto''))"
  by (simp add: env_no_bun_project_def env_no_bun_def InstallPackages_def determineMode_install_def)

subsection \<open>No package.json\<close>

text \<open>
  C10.  When \<open>os.Stat("package.json")\<close> reports that the file does not exist,
  \<open>InstallPackage\<close> and \<open>InstallPackages\<close> return after that one call: no executable is
  looked up, no command is run, no batch is started and the process does not exit.
\<close>

theorem no_package_json:
  "statPackageJson e = StatNotExist \<Longrightarrow>
   InstallPackage e name = ([Stat ''package.json''], Returns)
   \<and> InstallPackages e packages mode = ([Stat ''package.json''], Returns)"
  by (simp add: InstallPackage_def InstallPackages_def)

theorem no_package_json_witness:
  "statPackageJson env_no_bun = StatNotExist
   \<and> InstallPackage env_no_bun ''cors'' = ([Stat ''package.json''], Returns)
   \<and> InstallPackages env_no_bun [''cors'', ''xypriss''] ''n'' = ([Stat ''package.json''], Returns)"
proof -
  have st: "statPackageJson env_no_bun = StatNotExist" by (simp add: env_no_bun_def)
  from no_package_json [OF st] st show ?thesis by simp
qed

subsection \<open>The bound on concurrent installs\<close>

text \<open>
  C4.  In every state a batch of \<open>N\<close> packages can reach, the pool has \<open>min 4 N\<close>
  permits, the permits taken are exactly those of the goroutines between their acquire
  and their release, and these are at most \<open>min 4 N\<close>; so at most \<open>min 4 N\<close> installs
  run at once.  A goroutine whose install has ended, whatever the outcome, holds a
  permit, and its return, its send and its release can run one after the other: they
  end with the goroutine done under the same outcome, the npm lock free under npm, its
  result the newest in the channel and one permit fewer taken.
\<close>

theorem permit_bound:
  assumes "run b (init b) evs = Some s"
  shows "maxConcurrent b = min 4 (totalDeps b)
         \<and> semaphore s = length (filter holdsPermit (gor s))
         \<and> length (filter holdsPermit (gor s)) \<le> min 4 (totalDeps b)
         \<and> length (filter inSubprocess (gor s)) \<le> min 4 (totalDeps b)
         \<and> (\<forall>i ok. \<not> exited s \<longrightarrow>
               (at s i (Ran ok) \<longrightarrow> (\<exists>s'. next_state b s (Return i) = Some s'))
               \<and> (at s i (Returned ok) \<longrightarrow> (\<exists>s'. next_state b s (Send i) = Some s'))
               \<and> (at s i (Sent ok) \<longrightarrow>
                     next_state b s (Release i)
                       = Some (s\<lparr>gor := (gor s)[i := Done ok], semaphore := semaphore s - 1\<rparr>)))
         \<and> (\<forall>i ok. \<not> exited s \<and> at s i (Ran ok) \<longrightarrow>
               0 < semaphore s
               \<and> run b s [Return i, Send i, Release i]
                   = Some (s\<lparr>gor := (gor s)[i := Done ok],
                             npmMutex := (if useBun b then npmMutex s else False),
                             results := results s @ [taskResult b i ok],
                             semaphore := semaphore s - 1\<rparr>))"
proof -
  from reachable_inv [OF assms] have inv: "permits_inv b s" and ci: "collect_inv b s"
    by (simp_all add: batch_inv_def)
  have mc: "maxConcurrent b = min 4 (totalDeps b)"
    by (simp add: maxConcurrent_def min_def)
  from inv have sem: "semaphore s = length (filter holdsPermit (gor s))"
    and le: "semaphore s \<le> maxConcurrent b"
    and len: "length (gor s) = totalDeps b"
    by (simp_all add: permits_inv_def)
  have sub: "length (filter inSubprocess (gor s)) \<le> length (filter holdsPermit (gor s))"
    by (rule count_mono) (rule inSubprocess_holdsPermit)
  have room: "length (results s) < totalDeps b" if "i < length (gor s)" "\<not> hasSent (gor s ! i)" for i
  proof -
    from that have "length (filter hasSent (gor s)) < length (gor s)"
      by (rule count_less)
    moreover from ci have "length (results s) \<le> length (filter hasSent (gor s))"
      by (simp add: collect_inv_def)
    ultimately show ?thesis
      using len by simp
  qed
  have held: "0 < semaphore s" if "i < length (gor s)" "holdsPermit (gor s ! i)" for i
    using that sem count_pos [of i "gor s" holdsPermit] by simp
  have ret: "\<exists>s'. next_state b s (Return i) = Some s'"
    if "at s i (Ran ok)" "\<not> exited s" for i ok
    using that by (cases ok) (simp_all add: next_state_def Let_def)
  have snd: "\<exists>s'. next_state b s (Send i) = Some s'"
    if "at s i (Returned ok)" "\<not> exited s" for i ok
  proof -
    from that(1) have "length (results s) < totalDeps b"
      using room [of i] by (simp add: at_def)
    with that show ?thesis
      by (cases ok) (simp_all add: next_state_def Let_def)
  qed
  have rel: "next_state b s (Release i)
               = Some (s\<lparr>gor := (gor s)[i := Done ok], semaphore := semaphore s - 1\<rparr>)"
    if "at s i (Sent ok)" "\<not> exited s" for i ok
  proof -
    from that(1) have "0 < semaphore s"
      using held [of i] by (simp add: at_def)
    with that show ?thesis
      by (cases ok) (auto simp: next_state_def at_def)
  qed
  have through: "0 < semaphore s
               \<and> run b s [Return i, Send i, Release i]
                   = Some (s\<lparr>gor := (gor s)[i := Done ok],
                             npmMutex := (if useBun b then npmMutex s else False),
                             results := results s @ [taskResult b i ok],
                             semaphore := semaphore s - 1\<rparr>)"
    if "at s i (Ran ok)" "\<not> exited s" for i ok
  proof -
    from that(1) have i: "i < length (gor s)" and g: "gor s ! i = Ran ok"
      by (simp_all add: at_def)
    from i g have r: "length (results s) < totalDeps b"
      using room [of i] by simp
    from i g have p: "0 < semaphore s"
      using held [of i] by simp
    from i g r p that(2) have "run b s [Return i, Send i, Release i]
                   = Some (s\<lparr>gor := (gor s)[i := Done ok],
                             npmMutex := (if useBun b then npmMutex s else False),
                             results := results s @ [taskResult b i ok],
                             semaphore := semaphore s - 1\<rparr>)"
      by (cases ok) (simp_all add: next_state_def exited_def at_def Let_def)
    with p show ?thesis
      by simp
  qed
  from ret snd rel have a: "\<forall>i ok. \<not> exited s \<longrightarrow>
               (at s i (Ran ok) \<longrightarrow> (\<exists>s'. next_state b s (Return i) = Some s'))
               \<and> (at s i (Returned ok) \<longrightarrow> (\<exists>s'. next_state b s (Send i) = Some s'))
               \<and> (at s i (Sent ok) \<longrightarrow>
                     next_state b s (Release i)
                       = Some (s\<lparr>gor := (gor s)[i := Done ok], semaphore := semaphore s - 1\<rparr>))"
    by blast
  from through have t: "\<forall>i ok. \<not> exited s \<and> at s i (Ran ok) \<longrightarrow>
               0 < semaphore s
               \<and> run b s [Return i, Send i, Release i]
                   = Some (s\<lparr>gor := (gor s)[i := Done ok],
                             npmMutex := (if useBun b then npmMutex s else False),
                             results := results s @ [taskResult b i ok],
                             semaphore := semaphore s - 1\<rparr>)"
    by blast
  from sem le sub mc have "semaphore s = length (filter holdsPermit (gor s))
         \<and> length (filter holdsPermit (gor s)) \<le> min 4 (totalDeps b)
         \<and> length (filter inSubprocess (gor s)) \<le> min 4 (totalDeps b)"
    by simp
  with mc a t show ?thesis
    by (simp only: simp_thms)
qed

theorem permit_bound_witness:
  "run five_packages (init five_packages)
      [Acquire 0, Acquire 1, Acquire 2, Acquire 4, Launch 0, Exit 0 False]
     = Some five_packages_ran
   \<and> semaphore five_packages_ran = 4
   \<and> length (filter holdsPermit (gor five_packages_ran)) \<le> min 4 (totalDeps five_packages)
   \<and> next_state five_packages five_packages_ran (Acquire 3) = None
   \<and> \<not> exited five_packages_ran \<and> at five_packages_ran 0 (Ran False)
   \<and> run five_packages five_packages_ran [Return 0, Send 0, Release 0]
       = Some \<lparr>gor = [Done False, Acquired, Acquired, Start, Acquired], semaphore = 3,
               npmMutex = False,
               results = [\<lparr>packageName = ''a'', success = False, isDev = False, index = 0\<rparr>],
               completed = 0, failedDeps = [],
               mainpc = Collecting, printed = [], observed = []\<rparr>"
proof -
  have r: "run five_packages (init five_packages)
      [Acquire 0, Acquire 1, Acquire 2, Acquire 4, Launch 0, Exit 0 False]
     = Some five_packages_ran"
    by code_simp
  have n: "next_state five_packages five_packages_ran (Acquire 3) = None"
    by code_simp
  have a: "\<not> exited five_packages_ran \<and> at five_packages_ran 0 (Ran False)"
    by (simp add: five_packages_ran_def exited_def at_def)
  have t: "taskResult five_packages 0 False
             = \<lparr>packageName = ''a'', success = False, isDev = False, index = 0\<rparr>"
    by (simp add: taskResult_def taskName_def taskIsDev_def taskIndex_def five_packages_def)
  have u: "useBun five_packages"
    by (simp add: five_packages_def)
  from permit_bound [OF r] a have
    "run five_packages five_packages_ran [Return 0, Send 0, Release 0]
       = Some (five_packages_ran\<lparr>gor := (gor five_packages_ran)[0 := Done False],
                 npmMutex := (if useBun five_packages then npmMutex five_packages_ran else False),
                 results := results five_packages_ran @ [taskResult five_packages 0 False],
                 semaphore := semaphore five_packages_ran - 1\<rparr>)"
    by blast
  then have x: "run five_packages five_packages_ran [Return 0, Send 0, Release 0]
       = Some \<lparr>gor = [Done False, Acquired, Acquired, Start, Acquired], semaphore = 3,
               npmMutex = False,
               results = [\<lparr>packageName = ''a'', success = False, isDev = False, index = 0\<rparr>],
               completed = 0, failedDeps = [],
               mainpc = Collecting, printed = [], observed = []\<rparr>"
    unfolding t by (simp add: u five_packages_ran_def)
  from permit_bound [OF r] have
    "semaphore five_packages_ran = length (filter holdsPermit (gor five_packages_ran))
     \<and> length (filter holdsPermit (gor five_packages_ran)) \<le> min 4 (totalDeps five_packages)"
    by blast
  moreover have "semaphore five_packages_ran = 4"
    by (simp add: five_packages_ran_def)
  ultimately show ?thesis
    using r n a x by blast
qed


subsection \<open>Strict mode\<close>

text \<open>
  C5.  In a strict batch, once the collection loop has received a failed result the
  process has ended with exit code 1: that result is the last one received and all
  before it were successes, it is the failed result of a goroutine of the batch that
  has sent it, the line printed names the package of that goroutine, with the dev tag
  exactly when it is a dev dependency, and no event is enabled any more, so no further
  result is received.  The step that receives a result changes no goroutine, permit or
  lock: the others are neither awaited nor stopped.  A batch that is not strict never
  ends the process.
\<close>

theorem strict_first_failure_exits:
  assumes "run b (init b) evs = Some s"
  shows "(if strict b \<and> \<not> list_all success (observed s) then
            mainpc s = Exited 1 \<and> observed s \<noteq> []
            \<and> list_all success (butlast (observed s)) \<and> \<not> success (last (observed s))
            \<and> printed s = [''Installation failed in strict mode'',
                  ''Failed package: '' @ packageName (last (observed s))
                     @ (if isDev (last (observed s)) then '' (dev)'' else [])]
            \<and> completed s = length (butlast (observed s))
            \<and> (\<forall>e. next_state b s e = None)
            \<and> (\<exists>i<totalDeps b.
                  (gor s ! i = Sent False \<or> gor s ! i = Done False)
                  \<and> last (observed s) = taskResult b i False
                  \<and> packageName (last (observed s)) = (deps b @ devDeps b) ! i
                  \<and> isDev (last (observed s)) = (length (deps b) \<le> i))
          else \<not> exited s \<and> printed s = [])
         \<and> (\<forall>s'. next_state b s Receive = Some s' \<longrightarrow>
               gor s' = gor s \<and> semaphore s' = semaphore s \<and> npmMutex s' = npmMutex s)"
proof -
  from reachable_inv [OF assms] have inv: "strict_inv b s"
    and ci: "collect_inv b s" and pi: "permits_inv b s"
    by (simp_all add: batch_inv_def)
  have frame: "gor s' = gor s \<and> semaphore s' = semaphore s \<and> npmMutex s' = npmMutex s"
    if "next_state b s Receive = Some s'" for s'
  proof -
    from that have "step b s Receive = Some s'"
      by (simp add: next_state_def split: if_splits)
    then show ?thesis
      by (rule step_main_frame) simp
  qed
  have first: "if strict b \<and> \<not> list_all success (observed s) then
            mainpc s = Exited 1 \<and> observed s \<noteq> []
            \<and> list_all success (butlast (observed s)) \<and> \<not> success (last (observed s))
            \<and> printed s = [''Installation failed in strict mode'',
                  ''Failed package: '' @ packageName (last (observed s))
                     @ (if isDev (last (observed s)) then '' (dev)'' else [])]
            \<and> completed s = length (butlast (observed s))
            \<and> (\<forall>e. next_state b s e = None)
            \<and> (\<exists>i<totalDeps b.
                  (gor s ! i = Sent False \<or> gor s ! i = Done False)
                  \<and> last (observed s) = taskResult b i False
                  \<and> packageName (last (observed s)) = (deps b @ devDeps b) ! i
                  \<and> isDev (last (observed s)) = (length (deps b) \<le> i))
          else \<not> exited s \<and> printed s = []"
  proof (cases "strict b \<and> \<not> list_all success (observed s)")
    case True
    with inv have ex: "mainpc s = Exited 1"
      by (simp add: strict_inv_def)
    then have "exited s" by (simp add: exited_def)
    then have stuck: "\<forall>e. next_state b s e = None"
      by (simp add: exited_stuck)
    from True inv have base: "mainpc s = Exited 1 \<and> observed s \<noteq> []
            \<and> list_all success (butlast (observed s)) \<and> \<not> success (last (observed s))
            \<and> printed s = [''Installation failed in strict mode'',
                  ''Failed package: '' @ failedLabel (last (observed s))]
            \<and> completed s = length (butlast (observed s))"
      unfolding strict_inv_def by (simp only: if_True simp_thms)
    then have ne: "observed s \<noteq> []" and fl: "\<not> success (last (observed s))"
      by blast+
    from ne have "last (observed s) \<in> set (observed s)"
      by simp
    from observed_sent [OF ci pi this] fl obtain i where i: "i < totalDeps b"
      and l: "last (observed s) = taskResult b i False"
      and g: "gor s ! i = Sent False \<or> gor s ! i = Done False"
      by auto
    have "packageName (taskResult b i False) = (deps b @ devDeps b) ! i"
      and "isDev (taskResult b i False) = (length (deps b) \<le> i)"
      by (auto simp: taskResult_def taskName_def taskIsDev_def)
    with i l g have who: "\<exists>i<totalDeps b.
                  (gor s ! i = Sent False \<or> gor s ! i = Done False)
                  \<and> last (observed s) = taskResult b i False
                  \<and> packageName (last (observed s)) = (deps b @ devDeps b) ! i
                  \<and> isDev (last (observed s)) = (length (deps b) \<le> i)"
      by auto
    from True base stuck who show ?thesis
      by (simp only: if_True failedLabel_def append_assoc simp_thms)
  next
    case False
    with inv have "\<not> exited s \<and> printed s = []"
      unfolding strict_inv_def by (simp only: if_False simp_thms)
    with False show ?thesis
      by (simp only: if_False simp_thms)
  qed
  from frame have "\<forall>s'. next_state b s Receive = Some s' \<longrightarrow>
               gor s' = gor s \<and> semaphore s' = semaphore s \<and> npmMutex s' = npmMutex s"
    by blast
  with first show ?thesis
    by (rule conjI)
qed

theorem strict_first_failure_exits_witness:
  "run strict_three (init strict_three)
     [Acquire 0, Acquire 1, Acquire 2, Launch 0, Launch 1, Launch 2,
      Exit 2 False, Return 2, Send 2, Receive] = Some strict_three_exit
   \<and> strict strict_three \<and> \<not> list_all success (observed strict_three_exit)
   \<and> mainpc strict_three_exit = Exited 1
   \<and> printed strict_three_exit
        = [''Installation failed in strict mode'', ''Failed package: A (dev)'']
   \<and> gor strict_three_exit = [Running, Running, Sent False]
   \<and> next_state strict_three strict_three_exit Receive = None
   \<and> last (observed strict_three_exit) = taskResult strict_three 2 False
   \<and> run strict_three (init strict_three)
       [Acquire 1, Launch 1, Exit 1 False, Return 1, Send 1, Receive]
       = Some strict_three_exit_regular
   \<and> \<not> list_all success (observed strict_three_exit_regular)
   \<and> mainpc strict_three_exit_regular = Exited 1
   \<and> printed strict_three_exit_regular
        = [''Installation failed in strict mode'', ''Failed package: C'']
   \<and> gor strict_three_exit_regular = [Start, Sent False, Start]
   \<and> last (observed strict_three_exit_regular) = taskResult strict_three 1 False
   \<and> \<not> isDev (last (observed strict_three_exit_regular))
   \<and> next_state strict_three strict_three_exit_regular (Acquire 0) = None"
proof -
  have r: "run strict_three (init strict_three)
     [Acquire 0, Acquire 1, Acquire 2, Launch 0, Launch 1, Launch 2,
      Exit 2 False, Return 2, Send 2, Receive] = Some strict_three_exit"
    by code_simp
  have q: "run strict_three (init strict_three)
       [Acquire 1, Launch 1, Exit 1 False, Return 1, Send 1, Receive]
       = Some strict_three_exit_regular"
    by code_simp
  have st: "strict strict_three \<and> \<not> list_all success (observed strict_three_exit)"
    by (simp add: strict_three_def strict_three_exit_def)
  have sq: "strict strict_three \<and> \<not> list_all success (observed strict_three_exit_regular)"
    by (simp add: strict_three_def strict_three_exit_regular_def)
  have td: "totalDeps strict_three = 3"
    by (simp add: totalDeps_def strict_three_def)
  from strict_first_failure_exits [OF r] have
    "if strict strict_three \<and> \<not> list_all success (observed strict_three_exit) then
       mainpc strict_three_exit = Exited 1 \<and> observed strict_three_exit \<noteq> []
       \<and> list_all success (butlast (observed strict_three_exit))
       \<and> \<not> success (last (observed strict_three_exit))
       \<and> printed strict_three_exit = [''Installation failed in strict mode'',
             ''Failed package: '' @ packageName (last (observed strict_three_exit))
                @ (if isDev (last (observed strict_three_exit)) then '' (dev)'' else [])]
       \<and> completed strict_three_exit = length (butlast (observed strict_three_exit))
       \<and> (\<forall>e. next_state strict_three strict_three_exit e = None)
       \<and> (\<exists>i<totalDeps strict_three.
             (gor strict_three_exit ! i = Sent False \<or> gor strict_three_exit ! i = Done False)
             \<and> last (observed strict_three_exit) = taskResult strict_three i False
             \<and> packageName (last (observed strict_three_exit))
                 = (deps strict_three @ devDeps strict_three) ! i
             \<and> isDev (last (observed strict_three_exit)) = (length (deps strict_three) \<le> i))
     else \<not> exited strict_three_exit \<and> printed strict_three_exit = []"
    by (rule conjunct1)
  with st have one: "mainpc strict_three_exit = Exited 1
       \<and> (\<forall>e. next_state strict_three strict_three_exit e = None)
       \<and> (\<exists>i<totalDeps strict_three.
             (gor strict_three_exit ! i = Sent False \<or> gor strict_three_exit ! i = Done False)
             \<and> last (observed strict_three_exit) = taskResult strict_three i False
             \<and> packageName (last (observed strict_three_exit))
                 = (deps strict_three @ devDeps strict_three) ! i
             \<and> isDev (last (observed strict_three_exit)) = (length (deps strict_three) \<le> i))"
    by (simp only: if_True simp_thms)
  then obtain i where i: "i < 3"
    and gi: "gor strict_three_exit ! i = Sent False \<or> gor strict_three_exit ! i = Done False"
    and li: "last (observed strict_three_exit) = taskResult strict_three i False"
    unfolding td by blast
  from i have "i = 0 \<or> i = 1 \<or> i = 2"
    by arith
  with gi have "i = 2"
    by (auto simp: strict_three_exit_def)
  with li have l2: "last (observed strict_three_exit) = taskResult strict_three 2 False"
    by simp
  from strict_first_failure_exits [OF q] have
    "if strict strict_three \<and> \<not> list_all success (observed strict_three_exit_regular) then
       mainpc strict_three_exit_regular = Exited 1 \<and> observed strict_three_exit_regular \<noteq> []
       \<and> list_all success (butlast (observed strict_three_exit_regular))
       \<and> \<not> success (last (observed strict_three_exit_regular))
       \<and> printed strict_three_exit_regular = [''Installation failed in strict mode'',
             ''Failed package: '' @ packageName (last (observed strict_three_exit_regular))
                @ (if isDev (last (observed strict_three_exit_regular)) then '' (dev)'' else [])]
       \<and> completed strict_three_exit_regular
            = length (butlast (observed strict_three_exit_regular))
       \<and> (\<forall>e. next_state strict_three strict_three_exit_regular e = None)
       \<and> (\<exists>i<totalDeps strict_three.
             (gor strict_three_exit_regular ! i = Sent False
                \<or> gor strict_three_exit_regular ! i = Done False)
             \<and> last (observed strict_three_exit_regular) = taskResult strict_three i False
             \<and> packageName (last (observed strict_three_exit_regular))
                 = (deps strict_three @ devDeps strict_three) ! i
             \<and> isDev (last (observed strict_three_exit_regular))
                 = (length (deps strict_three) \<le> i))
     else \<not> exited strict_three_exit_regular \<and> printed strict_three_exit_regular = []"
    by (rule conjunct1)
  with sq have two: "mainpc strict_three_exit_regular = Exited 1
       \<and> (\<forall>e. next_state strict_three strict_three_exit_regular e = None)
       \<and> (\<exists>i<totalDeps strict_three.
             (gor strict_three_exit_regular ! i = Sent False
                \<or> gor strict_three_exit_regular ! i = Done False)
             \<and> last (observed strict_three_exit_regular) = taskResult strict_three i False
             \<and> packageName (last (observed strict_three_exit_regular))
                 = (deps strict_three @ devDeps strict_three) ! i
             \<and> isDev (last (observed strict_three_exit_regular))
                 = (length (deps strict_three) \<le> i))"
    by (simp only: if_True simp_thms)
  then obtain j where j: "j < 3"
    and gj: "gor strict_three_exit_regular ! j = Sent False
               \<or> gor strict_three_exit_regular ! j = Done False"
    and lj: "last (observed strict_three_exit_regular) = taskResult strict_three j False"
    and dj: "isDev (last (observed strict_three_exit_regular))
                 = (length (deps strict_three) \<le> j)"
    unfolding td by blast
  from j have "j = 0 \<or> j = 1 \<or> j = 2"
    by arith
  with gj have j1: "j = 1"
    by (auto simp: strict_three_exit_regular_def)
  with lj have l1: "last (observed strict_three_exit_regular) = taskResult strict_three 1 False"
    by simp
  from dj j1 have nd: "\<not> isDev (last (observed strict_three_exit_regular))"
    by (simp add: strict_three_def)
  from one have a1: "mainpc strict_three_exit = Exited 1"
    and a2: "next_state strict_three strict_three_exit Receive = None"
    by blast+
  from two have b1: "mainpc strict_three_exit_regular = Exited 1"
    and b2: "next_state strict_three strict_three_exit_regular (Acquire 0) = None"
    by blast+
  have c: "printed strict_three_exit
        = [''Installation failed in strict mode'', ''Failed package: A (dev)'']"
    "gor strict_three_exit = [Running, Running, Sent False]"
    "printed strict_three_exit_regular
        = [''Installation failed in strict mode'', ''Failed package: C'']"
    "gor strict_three_exit_regular = [Start, Sent False, Start]"
    by (simp_all add: strict_three_exit_def strict_three_exit_regular_def)
  from r q st sq a1 a2 b1 b2 c l2 l1 nd show ?thesis
    by (simp only: simp_thms)
qed


subsection \<open>The report of a batch that is not strict\<close>




subsection \<open>No packages\<close>

text \<open>
  C9.  In a batch without packages the collection loop ends at once: in the initial
  state leaving the loop is the only step possible, so no result is received and
  nothing blocks; after it nothing remains to be done, \<open>failedDeps\<close> is empty and the
  summary prints 0 of 0.
\<close>

theorem zero_packages:
  assumes "totalDeps b = 0"
  shows "next_state b (init b) Finish = Some ((init b)\<lparr>mainpc := Summary\<rparr>)
         \<and> (\<forall>e. e \<noteq> Finish \<longrightarrow> next_state b (init b) e = None)
         \<and> (\<forall>e. next_state b ((init b)\<lparr>mainpc := Summary\<rparr>) e = None)
         \<and> observed ((init b)\<lparr>mainpc := Summary\<rparr>) = []
         \<and> failedDeps ((init b)\<lparr>mainpc := Summary\<rparr>) = []
         \<and> finalSummary b ((init b)\<lparr>mainpc := Summary\<rparr>) = AllInstalled 0 0"
proof -
  have fin: "next_state b (init b) Finish = Some ((init b)\<lparr>mainpc := Summary\<rparr>)"
    using assms by (simp add: next_state_def exited_def init_def)
  have other: "next_state b (init b) e = None" if "e \<noteq> Finish" for e
    using assms that by (cases e) (simp_all add: next_state_def exited_def init_def at_def)
  have after: "next_state b ((init b)\<lparr>mainpc := Summary\<rparr>) e = None" for e
    using assms by (cases e) (simp_all add: next_state_def exited_def init_def at_def)
  have rest: "observed ((init b)\<lparr>mainpc := Summary\<rparr>) = []
         \<and> failedDeps ((init b)\<lparr>mainpc := Summary\<rparr>) = []
         \<and> finalSummary b ((init b)\<lparr>mainpc := Summary\<rparr>) = AllInstalled 0 0"
    using assms by (simp add: init_def finalSummary_def)
  from fin other after rest show ?thesis
    by blast
qed

theorem zero_packages_witness:
  "totalDeps no_packages = 0
   \<and> run no_packages (init no_packages) [Finish] = Some ((init no_packages)\<lparr>mainpc := Summary\<rparr>)
   \<and> next_state no_packages (init no_packages) Receive = None
   \<and> finalSummary no_packages ((init no_packages)\<lparr>mainpc := Summary\<rparr>) = AllInstalled 0 0"
proof -
  have z: "totalDeps no_packages = 0"
    by (simp add: totalDeps_def no_packages_def)
  from zero_packages [OF z] z show ?thesis
    by simp
qed

subsection \<open>Two npm subprocesses at once\<close>

text \<open>
  C1.  The lock is taken under \<open>!useBun\<close> only, so a task that the named exception
  sends to npm while bun is selected runs without it: with \<open>nquickdev\<close> given twice
  and bun selected, a schedule of four steps reaches a state in which both goroutines
  are in \<open>cmd.Run()\<close> of \<open>npm install nquickdev\<close> and the lock is free.
\<close>

theorem nquickdev_twice_both_npm_in_flight:
  "run nquickdev_twice (init nquickdev_twice) [Acquire 0, Acquire 1, Launch 0, Launch 1]
     = Some \<lparr>gor = [Running, Running], semaphore = 2, npmMutex = False, results = [],
             completed = 0, failedDeps = [], mainpc = Collecting, printed = [], observed = []\<rparr>
   \<and> taskCmd nquickdev_twice 0 = [''npm'', ''install'', ''nquickdev'']
   \<and> taskCmd nquickdev_twice 1 = [''npm'', ''install'', ''nquickdev'']"
  by code_simp

subsection \<open>The dev flag in a batch\<close>

text \<open>
  C2.  The task of a batch does not read the dev flag: the dev dependency
  \<open>typescript\<close> is installed with \<open>npm install typescript\<close> under npm and
  \<open>bun add typescript\<close> under bun, while \<open>installSingleDependency\<close> would run
  \<open>npm install --save-dev typescript\<close> and \<open>bun add -d typescript\<close>.
\<close>

theorem dev_dependency_installed_as_regular:
  "taskIsDev one_dev_dependency 0
   \<and> taskCmd one_dev_dependency 0 = [''npm'', ''install'', ''typescript'']
   \<and> taskCmd (one_dev_dependency\<lparr>useBun := True\<rparr>) 0 = [''bun'', ''add'', ''typescript'']
   \<and> installSingleDependency_cmd ''typescript'' True False
        = [''npm'', ''install'', ''--save-dev'', ''typescript'']
   \<and> installSingleDependency_cmd ''typescript'' True True
        = [''bun'', ''add'', ''-d'', ''typescript'']"
  by code_simp

end
